theory Spec2Isabelle
  imports Complex_Main
begin

section \<open>Pattern of points (libaccl/pattern/points.hxx)\<close>

text \<open>
  \<^verbatim>\<open>Base_t\<close> is a template parameter (an integral type); it is modelled by the unbounded
  integers, so the overflow of a machine type is not part of the model. \<^verbatim>\<open>size_t\<close> and
  \<^verbatim>\<open>unsigned\<close> values (indices, the layer payload) are naturals; they only count up from
  \<open>0\<close>, and the one decrement (\<^verbatim>\<open>if (layer) --layer\<close>) is guarded.
  A point is a \<^verbatim>\<open>std::vector<Base_t>\<close>.
\<close>

type_synonym point = "int list"

text \<open>
  \<^verbatim>\<open>std::map<point_t, Payload_t>\<close> is modelled by the list of its entries in iteration
  order, i.e. ordered by \<^verbatim>\<open>operator <\<close> of \<^verbatim>\<open>std::vector\<close> (lexicographic comparison).
\<close>

type_synonym 'v set_t = "(point \<times> 'v) list"

datatype error = AssertionFailed | OutOfRange | NotFound

fun point_less :: "point \<Rightarrow> point \<Rightarrow> bool" where
  "point_less [] [] = False"
| "point_less [] (y # ys) = True"
| "point_less (x # xs) [] = False"
| "point_less (x # xs) (y # ys) = (if x < y then True else if y < x then False else point_less xs ys)"

text \<open>
  \<^verbatim>\<open>m_impl.find(point)\<close>: the entry of the point, \<open>None\<close> standing for \<^verbatim>\<open>end()\<close>. The map
  finds the key that is neither less nor greater than the point; \<open>point_less\<close> is a strict
  linear order (\<open>point_less_total\<close> below), so this is the key that equals the point.
\<close>

fun get :: "'v set_t \<Rightarrow> point \<Rightarrow> (point \<times> 'v) option" where
  "get [] p = None"
| "get (x # m) p = (if fst x = p then Some x else get m p)"

text \<open>The place of a new entry in the ordered sequence.\<close>

fun ordered_insert :: "point \<Rightarrow> 'v \<Rightarrow> 'v set_t \<Rightarrow> 'v set_t" where
  "ordered_insert p v [] = [(p, v)]"
| "ordered_insert p v (x # m) =
     (if point_less p (fst x) then (p, v) # x # m else x # ordered_insert p v m)"

text \<open>
  \<^verbatim>\<open>m_impl.emplace(point, payload)\<close>: the entry is added only if the map has no entry
  with that key.
\<close>

definition emplace :: "point \<Rightarrow> 'v \<Rightarrow> 'v set_t \<Rightarrow> 'v set_t" where
  "emplace p v m = (case get m p of None \<Rightarrow> ordered_insert p v m | Some x \<Rightarrow> m)"

text \<open>\<^verbatim>\<open>points::set\<close>\<close>

definition set_point :: "point \<Rightarrow> 'v \<Rightarrow> 'v set_t \<Rightarrow> 'v set_t" where
  "set_point p v m = emplace p v m"

text \<open>\<^verbatim>\<open>points::size\<close>\<close>

definition size_points :: "'v set_t \<Rightarrow> nat" where
  "size_points m = length m"

text \<open>\<^verbatim>\<open>operator & (point, set)\<close>: the point is in the set.\<close>

definition contains :: "point \<Rightarrow> 'v set_t \<Rightarrow> bool" where
  "contains p m = (get m p \<noteq> None)"

text \<open>\<^verbatim>\<open>points::get_payload\<close>: throws if the point is not in the set.\<close>

definition get_payload :: "'v set_t \<Rightarrow> point \<Rightarrow> error + 'v" where
  "get_payload m p = (case get m p of None \<Rightarrow> Inl NotFound | Some x \<Rightarrow> Inr (snd x))"

section \<open>Hypersphere pattern (libaccl/pattern/hypersphere.hxx)\<close>

text \<open>
  The member functions of \<^verbatim>\<open>hypersphere\<close> update the point set of the object under
  construction. They take the point set and return the new one; a run that stops early
  returns \<open>Inl (e, m)\<close>: the failure and the point set as it is at that moment.
  A failed \<^verbatim>\<open>assert\<close> is \<open>AssertionFailed\<close>, a checked index past the end of a vector is
  \<open>OutOfRange\<close>.
\<close>

type_synonym failure = "error \<times> nat set_t"

subsection \<open>The base case of \<^verbatim>\<open>octant\<close>: layers in one dimension\<close>

text \<open>
  The layer-advance loop
  \<^verbatim>\<open>while (layer < layers.size()) if (radius <= layers[layer + 1]) layer++; else break;\<close>
  The read \<^verbatim>\<open>layers[layer + 1]\<close> is guarded by \<^verbatim>\<open>layer < layers.size()\<close> only, so the index
  can be \<^verbatim>\<open>layers.size()\<close>, where the vector has no element. What that read does is the
  parameter \<open>past\<close>: \<open>None\<close> is the checked access, which stops with \<open>OutOfRange\<close>; \<open>Some v\<close>
  is the unchecked access of \<^verbatim>\<open>operator []\<close> that finds the value \<open>v\<close> after the vector, and
  the loop goes on with it.
\<close>

function layer_advance :: "int option \<Rightarrow> int list \<Rightarrow> int \<Rightarrow> nat \<Rightarrow> error + nat" where
  "layer_advance past layers radius layer =
     (if layer < length layers then
        (if layer + 1 < length layers then
           (if radius \<le> layers ! (layer + 1) then layer_advance past layers radius (layer + 1)
            else Inr layer)
         else
           (case past of
              None \<Rightarrow> Inl OutOfRange
            | Some v \<Rightarrow>
                (if radius \<le> v then layer_advance past layers radius (layer + 1)
                 else Inr layer)))
      else Inr layer)"
  by pat_completeness auto

lemma layer_advance_total: "layer_advance_dom (past, layers, radius, layer)"
proof (induction "length layers - layer" arbitrary: layer rule: less_induct)
  case less
  show ?case
  proof (rule accpI)
    fix y assume "layer_advance_rel y (past, layers, radius, layer)"
    then show "layer_advance_dom y"
    proof (cases rule: layer_advance_rel.cases)
      case 1
      then show ?thesis using less[of "layer + 1"] by simp
    next
      case 2
      then show ?thesis using less[of "layer + 1"] by simp
    qed
  qed
qed

termination layer_advance
  using layer_advance_total by auto

declare layer_advance.simps [simp del]

text \<open>
  The loop \<^verbatim>\<open>while (radius > layers[layers.size() - 1]) { set(point, layer); --point[d];
  --radius; ... }\<close>; it is entered with \<open>d < length point\<close> and a non-empty \<open>layers\<close>
  (the assertions of \<^verbatim>\<open>octant\<close>). What is found after the vector may differ from one
  run of the layer-advance loop to the next: \<open>past_end p\<close> is what the run finds that is
  made when the loop stands at the point \<open>p\<close> (no two runs of one construction stand at
  the same point).
\<close>

function layers_loop ::
  "(point \<Rightarrow> int option) \<Rightarrow> int list \<Rightarrow> nat \<Rightarrow> point \<Rightarrow> int \<Rightarrow> nat \<Rightarrow> nat set_t
     \<Rightarrow> failure + (point \<times> nat \<times> nat set_t)" where
  "layers_loop past_end layers d point radius layer m =
     (if radius > layers ! (length layers - 1) then
        (case layer_advance (past_end (point[d := point ! d - 1])) layers (radius - 1) layer of
           Inl e \<Rightarrow> Inl (e, set_point point layer m)
         | Inr layer' \<Rightarrow>
             layers_loop past_end layers d (point[d := point ! d - 1]) (radius - 1) layer'
               (set_point point layer m))
      else Inr (point, layer, m))"
  by pat_completeness auto

lemma layers_loop_total: "layers_loop_dom (past_end, layers, d, point, radius, layer, m)"
proof (induction "nat (radius - layers ! (length layers - 1))"
    arbitrary: point radius layer m rule: less_induct)
  case less
  show ?case
  proof (rule accpI)
    fix y assume "layers_loop_rel y (past_end, layers, d, point, radius, layer, m)"
    then show "layers_loop_dom y"
      by (cases rule: layers_loop_rel.cases) (auto intro!: less)
  qed
qed

termination layers_loop
  using layers_loop_total by auto

declare layers_loop.simps [simp del]

subsection \<open>The radius update of the slicing loop\<close>

text \<open>
  The loop \<^verbatim>\<open>for (size_t i = 0; i < radii.size(); ++i)\<close> of \<^verbatim>\<open>octant\<close>, from index \<open>i\<close> on,
  with \<open>d_diff\<close> already incremented. It yields the new \<open>radii\<close> and \<open>criteria\<close>.
  \<^verbatim>\<open>for (; i < radii.size(); radii.pop_back())\<close> leaves the first \<open>i\<close> radii.
  \<^verbatim>\<open>chi <<= 2\<close> multiplies by four.
\<close>

function radii_loop :: "int \<Rightarrow> nat \<Rightarrow> int list \<Rightarrow> int list \<Rightarrow> error + (int list \<times> int list)" where
  "radii_loop d_diff i radii criteria =
     (if i < length radii then
        (let delta = radii ! i - d_diff in
         if delta \<le> 0 then
           (if 0 < i \<and> radii ! i + 1 \<le> radii ! (i - 1) then
              Inr (take (i + 1) (if delta \<noteq> 0 then radii[i := radii ! i + 1] else radii), criteria)
            else Inr (take i radii, criteria))
         else if i < length criteria then
           (let chi = d_diff;
                radii' = (if criteria ! i > 0 then radii[i := radii ! i - 1] else radii);
                chi = (if criteria ! i > 0 then chi - radii' ! i else chi);
                chi = chi * 4
            in radii_loop d_diff (i + 1) radii' (criteria[i := criteria ! i + (chi + 1)]))
         else Inl OutOfRange)
      else Inr (radii, criteria))"
  by pat_completeness auto

lemma radii_loop_total: "radii_loop_dom (d_diff, i, radii, criteria)"
proof (induction "length radii - i" arbitrary: i radii criteria rule: less_induct)
  case less
  show ?case
  proof (rule accpI)
    fix y assume "radii_loop_rel y (d_diff, i, radii, criteria)"
    then show "radii_loop_dom y"
      by (cases rule: radii_loop_rel.cases) (auto intro!: less)
  qed
qed

termination radii_loop
  using radii_loop_total by auto

declare radii_loop.simps [simp del]

lemma radii_loop_hd:
  "radii_loop d_diff i radii criteria = Inr (radii', criteria') \<Longrightarrow> 0 < i \<Longrightarrow> radii \<noteq> []
   \<Longrightarrow> radii' \<noteq> [] \<and> hd radii' = hd radii"
proof (induction d_diff i radii criteria rule: radii_loop.induct)
  case (1 d_diff i radii criteria)
  note eq = "1.prems"(1)[unfolded radii_loop.simps[of d_diff i radii criteria]]
  show ?case
  proof (cases "i < length radii")
    case False
    with eq "1.prems" show ?thesis by simp
  next
    case True
    note i = this
    show ?thesis
    proof (cases "radii ! i - d_diff \<le> 0")
      case True
      with i eq "1.prems"(2,3) show ?thesis
        by (auto simp: Let_def hd_conv_nth nth_list_update split: if_splits)
    next
      case False
      note delta = this
      show ?thesis
      proof (cases "i < length criteria")
        case False
        with i delta eq show ?thesis by (simp add: Let_def)
      next
        case True
        define radii1 where "radii1 = (if criteria ! i > 0 then radii[i := radii ! i - 1] else radii)"
        define chi where "chi = (if criteria ! i > 0 then d_diff - radii1 ! i else d_diff) * 4"
        from i delta True eq
        have rec: "radii_loop d_diff (i + 1) radii1 (criteria[i := criteria ! i + (chi + 1)])
                   = Inr (radii', criteria')"
          by (cases "0 < criteria ! i") (simp_all add: Let_def radii1_def chi_def)
        have ne: "radii1 \<noteq> []" using "1.prems"(3) by (simp add: radii1_def)
        have "radii' \<noteq> [] \<and> hd radii' = hd radii1"
          using "1.IH"[OF i refl delta True refl radii1_def refl refl rec[unfolded chi_def] _ ne] by simp
        moreover have "hd radii1 = hd radii"
          using "1.prems"(2,3) by (simp add: radii1_def hd_conv_nth)
        ultimately show ?thesis by simp
      qed
    qed
  qed
qed

lemma radii_loop_variant:
  assumes "radii_loop (d_diff + 1) 0 radii criteria = Inr (radii', criteria')" and "radii \<noteq> []"
  shows "radii' = [] \<or> (hd radii' \<le> hd radii \<and> d_diff + 1 < hd radii)"
proof -
  note eq = assms(1)[unfolded radii_loop.simps[of "d_diff + 1" 0 radii criteria]]
  show ?thesis
  proof (cases "radii ! 0 - (d_diff + 1) \<le> 0")
  case True
  with eq assms(2) show ?thesis by (simp add: Let_def)
next
  case False
  note delta = this
  show ?thesis
  proof (cases "0 < length criteria")
    case False
    with delta eq assms(2) show ?thesis by (simp add: Let_def)
  next
    case True
    define radii1 where "radii1 = (if criteria ! 0 > 0 then radii[0 := radii ! 0 - 1] else radii)"
    define chi where "chi = (if criteria ! 0 > 0 then (d_diff + 1) - radii1 ! 0 else d_diff + 1) * 4"
    from delta True eq assms(2)
    have rec: "radii_loop (d_diff + 1) (0 + 1) radii1 (criteria[0 := criteria ! 0 + (chi + 1)])
               = Inr (radii', criteria')"
      by (cases "0 < criteria ! 0") (simp_all add: Let_def radii1_def chi_def)
    have ne: "radii1 \<noteq> []" using assms(2) by (simp add: radii1_def)
    have "radii' \<noteq> [] \<and> hd radii' = hd radii1"
      using radii_loop_hd[OF rec _ ne] by simp
    moreover have "hd radii1 \<le> hd radii"
      using assms(2) by (cases radii) (simp_all add: radii1_def)
    moreover have "d_diff + 1 < hd radii"
      using delta assms(2) by (simp add: hd_conv_nth)
    ultimately show ?thesis by simp
  qed
qed
qed

subsection \<open>\<^verbatim>\<open>hypersphere::octant\<close>\<close>

text \<open>
  \<open>octant\<close> is the member function; \<open>slices\<close> is its loop \<^verbatim>\<open>while (!radii.empty())\<close>, which
  calls \<open>octant\<close> for each slice.
\<close>

function octant ::
    "(point \<Rightarrow> int option) \<Rightarrow> point \<Rightarrow> int list \<Rightarrow> nat \<Rightarrow> nat set_t \<Rightarrow> failure + nat set_t"
  and slices ::
    "(point \<Rightarrow> int option) \<Rightarrow> point \<Rightarrow> nat \<Rightarrow> int \<Rightarrow> int list \<Rightarrow> int list \<Rightarrow> point \<Rightarrow> nat set_t
       \<Rightarrow> failure + nat set_t"
where
  "octant past_end centre layers d m =
     (if \<not> d < length centre then Inl (AssertionFailed, m)
      else if \<not> 0 < length layers then Inl (AssertionFailed, m)
      else if length centre - 1 = d then
        (let radius = layers ! 0;
             point = centre[d := centre ! d + radius]
         in case layers_loop past_end layers d point radius 0 m of
              Inl f \<Rightarrow> Inl f
            | Inr (point', layer, m') \<Rightarrow>
                Inr (set_point point' (if layer \<noteq> 0 then layer - 1 else layer) m'))
      else slices past_end centre d 0 layers (map (\<lambda>radius. 1 - radius) layers) centre m)"
| "slices past_end centre d d_diff radii criteria slice_centre m =
     (if radii \<noteq> [] then
        (let slice_centre' = slice_centre[d := centre ! d + d_diff]
         in case octant past_end slice_centre' radii (d + 1) m of
              Inl f \<Rightarrow> Inl f
            | Inr m' \<Rightarrow>
                (case radii_loop (d_diff + 1) 0 radii criteria of
                   Inl e \<Rightarrow> Inl (e, m')
                 | Inr (radii', criteria') \<Rightarrow>
                     slices past_end centre d (d_diff + 1) radii' criteria' slice_centre' m'))
      else Inr m)"
  by pat_completeness auto

text \<open>
  The recursion is well-founded: a call of \<open>octant\<close> from \<open>slices\<close> has one axis less to
  slice, and an iteration of \<open>slices\<close> brings \<open>d_diff\<close> closer to the first radius or
  empties \<open>radii\<close>.
\<close>

definition octant_slices_variant ::
  "(point \<Rightarrow> int option) \<times> point \<times> int list \<times> nat \<times> nat set_t
     + (point \<Rightarrow> int option) \<times> point \<times> nat \<times> int \<times> int list \<times> int list \<times> point \<times> nat set_t
   \<Rightarrow> nat \<times> nat" where
  "octant_slices_variant x =
     (case x of
        Inl (past_end, centre, layers, d, m) \<Rightarrow>
          (if d < length centre then 2 * (length centre - d) + 3 else 1, 0)
      | Inr (past_end, centre, d, d_diff, radii, criteria, slice_centre, m) \<Rightarrow>
          (2 * (length slice_centre - d) + 2,
           if radii = [] then 0 else nat (hd radii - d_diff) + 1))"

lemma octant_slices_total: "octant_slices_dom x"
proof -
  have "wf (inv_image (less_than <*lex*> less_than) octant_slices_variant)"
    by (intro wf_inv_image wf_lex_prod wf_less_than)
  then show ?thesis
  proof (induction x rule: wf_induct_rule)
    case (less x)
    show ?case
    proof (rule accpI)
      fix y assume "octant_slices_rel y x"
      then show "octant_slices_dom y"
      proof (cases rule: octant_slices_rel.cases)
        case (1 past_end centre layers d m)
        then show ?thesis by (auto intro!: less simp: octant_slices_variant_def)
      next
        case (2 past_end centre d d_diff radii criteria slice_centre m sc)
        then show ?thesis by (auto intro!: less simp: octant_slices_variant_def)
      next
        case (3 past_end centre d d_diff radii criteria slice_centre m sc m' r radii' criteria')
        with radii_loop_variant[of d_diff radii criteria radii' criteria']
        show ?thesis by (auto intro!: less simp: octant_slices_variant_def)
      qed
    qed
  qed
qed

termination octant
  using octant_slices_total by auto

declare octant.simps [simp del] slices.simps [simp del]

subsection \<open>\<^verbatim>\<open>hypersphere::symmetry\<close>\<close>

text \<open>
  \<^verbatim>\<open>std::for_each\<close> over a sequence, with a body that updates the point set; a failure of
  the body ends the loop.
\<close>

fun for_each :: "('a \<Rightarrow> 's \<Rightarrow> 'e + 's) \<Rightarrow> 'a list \<Rightarrow> 's \<Rightarrow> 'e + 's" where
  "for_each f [] s = Inr s"
| "for_each f (x # xs) s = (case f x s of Inl e \<Rightarrow> Inl e | Inr s' \<Rightarrow> for_each f xs s')"

text \<open>
  The body of the diagonal pass: \<^verbatim>\<open>if (x[d] != x[b]) { y = x; swap y[d], y[b]; set(y, layer) }\<close>.
  Reading a coordinate that the point does not have is \<open>OutOfRange\<close>.
\<close>

definition diagonal_reflect :: "nat \<Rightarrow> nat \<Rightarrow> point \<times> nat \<Rightarrow> nat set_t \<Rightarrow> failure + nat set_t" where
  "diagonal_reflect d b x_layer m =
     (if d < length (fst x_layer) \<and> b < length (fst x_layer) then
        (if fst x_layer ! d \<noteq> fst x_layer ! b then
           (let y = fst x_layer;
                tmp = y ! d;
                y = y[d := y ! b];
                y = y[b := tmp]
            in Inr (set_point y (snd x_layer) m))
         else Inr m)
      else Inl (OutOfRange, m))"

text \<open>The body of the axial pass: \<^verbatim>\<open>if (0 != x[d]) { y = x; y[d] = -y[d]; set(y, layer) }\<close>.\<close>

definition axial_reflect :: "nat \<Rightarrow> point \<times> nat \<Rightarrow> nat set_t \<Rightarrow> failure + nat set_t" where
  "axial_reflect d x_layer m =
     (if d < length (fst x_layer) then
        (if 0 \<noteq> fst x_layer ! d then
           (let y = fst x_layer;
                y = y[d := - (y ! d)]
            in Inr (set_point y (snd x_layer) m))
         else Inr m)
      else Inl (OutOfRange, m))"

text \<open>
  One iteration of each of the two loops over \<open>d\<close>: \<^verbatim>\<open>const set_t points(*this)\<close> copies
  the point set, and the copy is iterated while the reflections are added to the set.
\<close>

definition diagonal_pass :: "nat \<Rightarrow> nat \<Rightarrow> nat set_t \<Rightarrow> failure + nat set_t" where
  "diagonal_pass dimension d m =
     (let b = (d + 1) mod dimension;
          points = m
      in for_each (diagonal_reflect d b) points m)"

definition axial_pass :: "nat \<Rightarrow> nat set_t \<Rightarrow> failure + nat set_t" where
  "axial_pass d m = (let points = m in for_each (axial_reflect d) points m)"

definition symmetry :: "nat \<Rightarrow> nat set_t \<Rightarrow> failure + nat set_t" where
  "symmetry dimension m =
     (case for_each (diagonal_pass dimension) [0..<dimension] m of
        Inl f \<Rightarrow> Inl f
      | Inr m' \<Rightarrow> for_each axial_pass [0..<dimension] m')"

subsection \<open>The calls of \<^verbatim>\<open>set\<close> that \<^verbatim>\<open>symmetry\<close> makes\<close>

text \<open>
  The same passes with a record of what they do, for the properties that speak of the
  course of a pass and not only of the point set it leaves. The state of a pass body is the
  list of the calls \<^verbatim>\<open>this->set(y, layer)\<close> made so far in the pass, with the point set. The
  state of \<^verbatim>\<open>symmetry\<close> is the list of the passes made so far, each with the copy \<^verbatim>\<open>points\<close>
  that it iterated and the calls that it made, with the point set.
\<close>

type_synonym calls = "(point \<times> nat) list"

fun diagonal_reflect_traced ::
  "nat \<Rightarrow> nat \<Rightarrow> point \<times> nat \<Rightarrow> calls \<times> nat set_t \<Rightarrow> failure + calls \<times> nat set_t" where
  "diagonal_reflect_traced d b x_layer (calls, m) =
     (if d < length (fst x_layer) \<and> b < length (fst x_layer) then
        (if fst x_layer ! d \<noteq> fst x_layer ! b then
           (let y = fst x_layer;
                tmp = y ! d;
                y = y[d := y ! b];
                y = y[b := tmp]
            in Inr (calls @ [(y, snd x_layer)], set_point y (snd x_layer) m))
         else Inr (calls, m))
      else Inl (OutOfRange, m))"

fun axial_reflect_traced ::
  "nat \<Rightarrow> point \<times> nat \<Rightarrow> calls \<times> nat set_t \<Rightarrow> failure + calls \<times> nat set_t" where
  "axial_reflect_traced d x_layer (calls, m) =
     (if d < length (fst x_layer) then
        (if 0 \<noteq> fst x_layer ! d then
           (let y = fst x_layer;
                y = y[d := - (y ! d)]
            in Inr (calls @ [(y, snd x_layer)], set_point y (snd x_layer) m))
         else Inr (calls, m))
      else Inl (OutOfRange, m))"

fun diagonal_pass_traced ::
  "nat \<Rightarrow> nat \<Rightarrow> (nat set_t \<times> calls) list \<times> nat set_t
     \<Rightarrow> failure + (nat set_t \<times> calls) list \<times> nat set_t" where
  "diagonal_pass_traced dimension d (passes, m) =
     (let b = (d + 1) mod dimension;
          points = m
      in case for_each (diagonal_reflect_traced d b) points ([], m) of
           Inl f \<Rightarrow> Inl f
         | Inr (calls, m') \<Rightarrow> Inr (passes @ [(points, calls)], m'))"

fun axial_pass_traced ::
  "nat \<Rightarrow> (nat set_t \<times> calls) list \<times> nat set_t
     \<Rightarrow> failure + (nat set_t \<times> calls) list \<times> nat set_t" where
  "axial_pass_traced d (passes, m) =
     (let points = m
      in case for_each (axial_reflect_traced d) points ([], m) of
           Inl f \<Rightarrow> Inl f
         | Inr (calls, m') \<Rightarrow> Inr (passes @ [(points, calls)], m'))"

definition symmetry_traced ::
  "nat \<Rightarrow> nat set_t \<Rightarrow> failure + (nat set_t \<times> calls) list \<times> nat set_t" where
  "symmetry_traced dimension m =
     (case for_each (diagonal_pass_traced dimension) [0..<dimension] ([], m) of
        Inl f \<Rightarrow> Inl f
      | Inr s \<Rightarrow> for_each axial_pass_traced [0..<dimension] s)"

subsection \<open>Symmetry completion as the specification describes it\<close>

text \<open>
  The passes in the words of the specification, to compare \<^verbatim>\<open>symmetry\<close> with. A pass has a
  snapshot, the point set as it is before the pass begins. The diagonal pass of the axis
  pair \<open>(d, d + 1 mod dimension)\<close> inserts, for every point of the snapshot whose two
  coordinates differ, the point with the two coordinates swapped, with the same payload;
  the axial pass of the axis \<open>d\<close> inserts, for every point of the snapshot whose coordinate
  \<open>d\<close> is not zero, the point with that coordinate negated, with the same payload. The
  diagonal passes of all axes come first, then the axial passes of all axes.
\<close>

definition spec_diagonal_reflections :: "nat \<Rightarrow> nat \<Rightarrow> nat set_t \<Rightarrow> calls" where
  "spec_diagonal_reflections dimension d snapshot =
     [(q[d := q ! ((d + 1) mod dimension), (d + 1) mod dimension := q ! d], v).
        (q, v) \<leftarrow> snapshot, q ! d \<noteq> q ! ((d + 1) mod dimension)]"

definition spec_axial_reflections :: "nat \<Rightarrow> nat set_t \<Rightarrow> calls" where
  "spec_axial_reflections d snapshot = [(q[d := - (q ! d)], v). (q, v) \<leftarrow> snapshot, q ! d \<noteq> 0]"

definition spec_insert_all :: "calls \<Rightarrow> nat set_t \<Rightarrow> nat set_t" where
  "spec_insert_all insertions m = foldl (\<lambda>s (p, v). set_point p v s) m insertions"

definition spec_pass ::
  "(nat set_t \<Rightarrow> calls) \<Rightarrow> (nat set_t \<times> calls) list \<times> nat set_t
     \<Rightarrow> (nat set_t \<times> calls) list \<times> nat set_t" where
  "spec_pass reflections s =
     (let snapshot = snd s;
          insertions = reflections snapshot
      in (fst s @ [(snapshot, insertions)], spec_insert_all insertions snapshot))"

definition spec_symmetry :: "nat \<Rightarrow> nat set_t \<Rightarrow> (nat set_t \<times> calls) list \<times> nat set_t" where
  "spec_symmetry dimension m =
     foldl (\<lambda>s reflections. spec_pass reflections s) ([], m)
       (map (spec_diagonal_reflections dimension) [0..<dimension]
        @ map spec_axial_reflections [0..<dimension])"

subsection \<open>The constructor\<close>

text \<open>
  \<^verbatim>\<open>assert(0 < dimension); octant(zero, layers); symmetry(dimension);\<close> The point set is
  empty at the start. \<open>past_end\<close> is what the reads past the end of the layers find in this
  construction.
\<close>

definition hypersphere :: "(point \<Rightarrow> int option) \<Rightarrow> nat \<Rightarrow> int list \<Rightarrow> failure + nat set_t" where
  "hypersphere past_end dimension layers =
     (if \<not> 0 < dimension then Inl (AssertionFailed, [])
      else case octant past_end (replicate dimension 0) layers 0 [] of
             Inl f \<Rightarrow> Inl f
           | Inr m \<Rightarrow> symmetry dimension m)"

subsection \<open>Distances\<close>


section \<open>Properties of the pattern of points\<close>

lemma get_Some_fst: "get m p = Some x \<Longrightarrow> fst x = p \<and> x \<in> set m"
  by (induction m) (auto split: if_splits)

lemma get_None_iff: "get m p = None \<longleftrightarrow> p \<notin> fst ` set m"
  by (induction m) auto

lemma get_ordered_insert:
  "get m p = None \<Longrightarrow> get (ordered_insert p v m) q = (if q = p then Some (p, v) else get m q)"
  by (induction m) (auto split: if_splits)

lemma set_ordered_insert: "set (ordered_insert p v m) = insert (p, v) (set m)"
  by (induction m) auto

lemma length_ordered_insert: "length (ordered_insert p v m) = Suc (length m)"
  by (induction m) auto

lemma get_set_point:
  "get (set_point p v m) q = (if q = p \<and> get m p = None then Some (p, v) else get m q)"
  by (auto simp: set_point_def emplace_def get_ordered_insert split: option.splits)

lemma set_point_present: "get m p \<noteq> None \<Longrightarrow> set_point p v m = m"
  by (auto simp: set_point_def emplace_def)

lemma set_set_point:
  "set (set_point p v m) = (if get m p = None then insert (p, v) (set m) else set m)"
  by (auto simp: set_point_def emplace_def set_ordered_insert split: option.splits)

lemma distinct_set_point:
  "distinct (map fst m) \<Longrightarrow> distinct (map fst (set_point p v m))"
proof (cases "get m p")
  case None
  assume d: "distinct (map fst m)"
  have "distinct (map fst (ordered_insert p v m))" using d None
  proof (induction m)
    case Nil
    then show ?case by simp
  next
    case (Cons x m)
    then show ?case
      by (auto simp: set_ordered_insert get_None_iff split: if_splits)
  qed
  with None show ?thesis by (simp add: set_point_def emplace_def)
next
  case (Some x)
  assume "distinct (map fst m)"
  with Some show ?thesis by (simp add: set_point_def emplace_def)
qed

lemma get_distinct: "distinct (map fst m) \<Longrightarrow> (p, v) \<in> set m \<Longrightarrow> get m p = Some (p, v)"
  by (induction m) (auto simp: rev_image_eqI)

text \<open>
  \<open>point_less\<close> is a strict linear order, and an insertion keeps the entries in this order:
  the list is the sequence that iterating the \<^verbatim>\<open>std::map\<close> yields.
\<close>

lemma point_less_irrefl: "\<not> point_less p p"
  by (induction p) auto

lemma point_less_trans: "point_less p q \<Longrightarrow> point_less q r \<Longrightarrow> point_less p r"
proof (induction p q arbitrary: r rule: point_less.induct)
  case (4 x xs y ys)
  then show ?case by (cases r) (auto split: if_splits)
qed (auto elim: point_less.elims)

lemma point_less_total: "\<not> point_less p q \<Longrightarrow> p \<noteq> q \<Longrightarrow> point_less q p"
  by (induction p q rule: point_less.induct) (auto split: if_splits)

lemma sorted_ordered_insert:
  "sorted_wrt point_less (map fst m) \<Longrightarrow> get m p = None
   \<Longrightarrow> sorted_wrt point_less (map fst (ordered_insert p v m))"
proof (induction m)
  case Nil
  then show ?case by simp
next
  case (Cons x m)
  show ?case
  proof (cases "point_less p (fst x)")
    case True
    with Cons.prems(1) show ?thesis by (auto intro: point_less_trans)
  next
    case False
    from Cons.prems(2) have ne: "p \<noteq> fst x" and absent: "get m p = None"
      by (auto split: if_splits)
    from point_less_total[OF False ne] Cons.prems(1) Cons.IH[OF _ absent] False
    show ?thesis by (auto simp: set_ordered_insert)
  qed
qed

lemma sorted_set_point:
  "sorted_wrt point_less (map fst m) \<Longrightarrow> sorted_wrt point_less (map fst (set_point p v m))"
  by (auto simp: set_point_def emplace_def sorted_ordered_insert split: option.splits)

section \<open>Properties of the loops of \<^verbatim>\<open>octant\<close>\<close>

subsection \<open>The layer-advance loop\<close>

lemma layer_advance_error: "layer_advance past layers radius layer = Inl e \<Longrightarrow> e = OutOfRange"
  by (induction past layers radius layer rule: layer_advance.induct)
     (subst (asm) (3) layer_advance.simps, auto split: if_splits option.splits)

text \<open>With an unchecked read the loop always ends with a layer.\<close>

lemma layer_advance_unchecked:
  "\<exists>layer'. layer_advance (Some v) layers radius layer = Inr layer'"
proof (induction "Some v" layers radius layer rule: layer_advance.induct)
  case (1 layers radius layer)
  then show ?case by (subst layer_advance.simps) auto
qed

subsection \<open>The loop of the base case\<close>

lemma layers_loop_skip:
  "\<not> layers ! (length layers - 1) < radius
   \<Longrightarrow> layers_loop past_end layers d point radius layer m = Inr (point, layer, m)"
  by (subst layers_loop.simps) simp

lemma layers_loop_error:
  "layers_loop past_end layers d point radius layer m = Inl (e, m') \<Longrightarrow> e = OutOfRange"
proof (induction past_end layers d point radius layer m rule: layers_loop.induct)
  case (1 past_end layers d point radius layer m)
  show ?case
  proof (cases "layers ! (length layers - 1) < radius")
    case False
    with "1.prems" show ?thesis by (simp add: layers_loop_skip)
  next
    case True
    show ?thesis
    proof (cases "layer_advance (past_end (point[d := point ! d - 1])) layers (radius - 1) layer")
      case (Inl e')
      with True "1.prems" have "e = e'" by (subst (asm) layers_loop.simps) simp
      with Inl show ?thesis by (simp add: layer_advance_error)
    next
      case (Inr k)
      with True "1.prems"
      have "layers_loop past_end layers d (point[d := point ! d - 1]) (radius - 1) k
              (set_point point layer m) = Inl (e, m')"
        by (subst (asm) layers_loop.simps) simp
      with "1.IH"[OF True Inr] show ?thesis .
    qed
  qed
qed

lemma layers_loop_unchecked:
  assumes "\<forall>p. past_end p \<noteq> None"
  shows "\<exists>r. layers_loop past_end layers d point radius layer m = Inr r"
  using assms
proof (induction past_end layers d point radius layer m rule: layers_loop.induct)
  case (1 past_end layers d point radius layer m)
  show ?case
  proof (cases "layers ! (length layers - 1) < radius")
    case False
    then show ?thesis by (simp add: layers_loop_skip)
  next
    case True
    from "1.prems" obtain v where v: "past_end (point[d := point ! d - 1]) = Some v" by fastforce
    from layer_advance_unchecked[of v layers "radius - 1" layer]
    obtain k where k: "layer_advance (Some v) layers (radius - 1) layer = Inr k" by blast
    from "1.IH"[OF True k[folded v] "1.prems"] True k v
    show ?thesis by (subst layers_loop.simps) simp
  qed
qed

lemma layers_loop_invariant:
  assumes step: "\<And>p v m. I m \<Longrightarrow> length p = n \<Longrightarrow> I (set_point p v m)"
  shows "layers_loop past_end layers d point radius layer m = Inr (point', layer', m') \<Longrightarrow> I m
         \<Longrightarrow> length point = n \<Longrightarrow> I m' \<and> length point' = n"
proof (induction past_end layers d point radius layer m rule: layers_loop.induct)
  case (1 past_end layers d point radius layer m)
  show ?case
  proof (cases "layers ! (length layers - 1) < radius")
    case False
    with "1.prems" show ?thesis by (simp add: layers_loop_skip)
  next
    case True
    with "1.prems"(1) obtain k where
      k: "layer_advance (past_end (point[d := point ! d - 1])) layers (radius - 1) layer = Inr k" and
      rec: "layers_loop past_end layers d (point[d := point ! d - 1]) (radius - 1) k
              (set_point point layer m) = Inr (point', layer', m')"
      by (subst (asm) layers_loop.simps) (auto split: sum.splits)
    from "1.IH"[OF True k rec] step[OF "1.prems"(2,3)] "1.prems"(3)
    show ?thesis by simp
  qed
qed

subsection \<open>The radius update\<close>

lemma radii_loop_error: "radii_loop d_diff i radii criteria = Inl e \<Longrightarrow> e = OutOfRange"
proof (induction d_diff i radii criteria rule: radii_loop.induct)
  case (1 d_diff i radii criteria)
  show ?case
  proof (cases "i < length radii \<and> \<not> radii ! i - d_diff \<le> 0 \<and> i < length criteria")
    case False
    with "1.prems" show ?thesis
      by (subst (asm) radii_loop.simps) (auto simp: Let_def split: if_splits)
  next
    case True
    define radii1 where "radii1 = (if criteria ! i > 0 then radii[i := radii ! i - 1] else radii)"
    define chi where "chi = (if criteria ! i > 0 then d_diff - radii1 ! i else d_diff) * 4"
    have "radii_loop d_diff i radii criteria
      = radii_loop d_diff (i + 1) radii1 (criteria[i := criteria ! i + (chi + 1)])"
      using True by (subst radii_loop.simps) (simp add: Let_def radii1_def chi_def)
    with "1.prems" "1.IH"[OF _ refl _ _ refl radii1_def refl refl] True
    show ?thesis by (simp add: chi_def)
  qed
qed

text \<open>
  \<open>criteria\<close> is never shortened and \<open>radii\<close> is never longer than it: the reads of
  \<^verbatim>\<open>radii[i]\<close>, \<^verbatim>\<open>radii[i - 1]\<close> and \<^verbatim>\<open>criteria[i]\<close> are in bounds.
\<close>

lemma radii_loop_in_bounds:
  "length radii \<le> length criteria
   \<Longrightarrow> \<exists>radii' criteria'. radii_loop d_diff i radii criteria = Inr (radii', criteria')
         \<and> length radii' \<le> length radii \<and> length criteria' = length criteria"
proof (induction d_diff i radii criteria rule: radii_loop.induct)
  case (1 d_diff i radii criteria)
  show ?case
  proof (cases "i < length radii \<and> \<not> radii ! i - d_diff \<le> 0")
    case False
    then show ?thesis by (subst radii_loop.simps) (auto simp: Let_def)
  next
    case True
    with "1.prems" have ic: "i < length criteria" by simp
    define radii1 where "radii1 = (if criteria ! i > 0 then radii[i := radii ! i - 1] else radii)"
    define chi where "chi = (if criteria ! i > 0 then d_diff - radii1 ! i else d_diff) * 4"
    have "length radii1 \<le> length (criteria[i := criteria ! i + (chi + 1)])"
      using "1.prems" by (simp add: radii1_def)
    from "1.IH"[OF _ refl _ ic refl radii1_def refl refl this[unfolded chi_def]] True
    obtain radii' criteria' where
      "radii_loop d_diff (i + 1) radii1 (criteria[i := criteria ! i + (chi + 1)])
         = Inr (radii', criteria')"
      "length radii' \<le> length radii1" "length criteria' = length criteria"
      by (auto simp: chi_def)
    moreover have "radii_loop d_diff i radii criteria
      = radii_loop d_diff (i + 1) radii1 (criteria[i := criteria ! i + (chi + 1)])"
      using True ic by (subst radii_loop.simps) (simp add: Let_def radii1_def chi_def)
    ultimately show ?thesis by (simp add: radii1_def split: if_splits)
  qed
qed

section \<open>Properties of \<^verbatim>\<open>octant\<close>\<close>

lemma octant_assert:
  "\<not> d < length centre \<or> layers = [] \<Longrightarrow> octant past_end centre layers d m = Inl (AssertionFailed, m)"
  by (subst octant.simps) auto

lemma octant_base:
  "d < length centre \<Longrightarrow> layers \<noteq> [] \<Longrightarrow> length centre - 1 = d
   \<Longrightarrow> octant past_end centre layers d m =
       (case layers_loop past_end layers d (centre[d := centre ! d + layers ! 0]) (layers ! 0) 0 m of
          Inl f \<Rightarrow> Inl f
        | Inr (point', layer, m') \<Rightarrow>
            Inr (set_point point' (if layer \<noteq> 0 then layer - 1 else layer) m'))"
  by (subst octant.simps) (simp add: Let_def)

lemma octant_rec:
  "d < length centre \<Longrightarrow> layers \<noteq> [] \<Longrightarrow> length centre - 1 \<noteq> d
   \<Longrightarrow> octant past_end centre layers d m =
       slices past_end centre d 0 layers (map (\<lambda>radius. 1 - radius) layers) centre m"
  by (subst octant.simps) simp

lemma slices_Nil: "slices past_end centre d d_diff [] criteria slice_centre m = Inr m"
  by (subst slices.simps) simp

lemma slices_step:
  "radii \<noteq> [] \<Longrightarrow> slices past_end centre d d_diff radii criteria slice_centre m =
     (case octant past_end (slice_centre[d := centre ! d + d_diff]) radii (d + 1) m of
        Inl f \<Rightarrow> Inl f
      | Inr m' \<Rightarrow>
          (case radii_loop (d_diff + 1) 0 radii criteria of
             Inl e \<Rightarrow> Inl (e, m')
           | Inr (radii', criteria') \<Rightarrow>
               slices past_end centre d (d_diff + 1) radii' criteria'
                 (slice_centre[d := centre ! d + d_diff]) m'))"
  by (subst slices.simps) (simp add: Let_def)

text \<open>
  The assertions of \<open>octant\<close> hold in every recursive call: a run that starts with
  \<open>d < length centre\<close> and a non-empty list of layers stops early only at a read past the
  end of a vector.
\<close>

lemma octant_slices_error:
  "octant past_end centre layers d m = Inl (e, m') \<Longrightarrow> d < length centre \<Longrightarrow> layers \<noteq> []
   \<Longrightarrow> e = OutOfRange"
  "slices past_end centre d d_diff radii criteria slice_centre m = Inl (e, m')
   \<Longrightarrow> d + 1 < length slice_centre \<Longrightarrow> e = OutOfRange"
proof (induction past_end centre layers d m and past_end centre d d_diff radii criteria slice_centre m
    arbitrary: m' and m' rule: octant_slices.induct)
  case (1 past_end centre layers d m)
  show ?case
  proof (cases "length centre - 1 = d")
    case True
    with "1.prems" show ?thesis
      by (auto simp: octant_base split: sum.splits dest: layers_loop_error)
  next
    case False
    with "1.prems" have "d + 1 < length centre" by simp
    with "1.IH"[of m'] "1.prems" False show ?thesis by (simp add: octant_rec)
  qed
next
  case (2 past_end centre d d_diff radii criteria slice_centre m)
  show ?case
  proof (cases "radii = []")
    case True
    with "2.prems" show ?thesis by (simp add: slices_Nil)
  next
    case False
    define sc where "sc = slice_centre[d := centre ! d + d_diff]"
    note step = "2.prems"(1)[unfolded slices_step[OF False], folded sc_def]
    show ?thesis
    proof (cases "octant past_end sc radii (d + 1) m")
      case (Inl f)
      with step have "octant past_end sc radii (d + 1) m = Inl (e, m')" by simp
      from "2.IH"(1)[OF False sc_def this] "2.prems"(2) False show ?thesis
        by (simp add: sc_def)
    next
      case (Inr m1)
      show ?thesis
      proof (cases "radii_loop (d_diff + 1) 0 radii criteria")
        case (Inl e')
        with Inr step have "e = e'" by simp
        with Inl show ?thesis by (simp add: radii_loop_error)
      next
        case Inr2: (Inr rc)
        obtain radii' criteria' where rc: "rc = (radii', criteria')" by (cases rc)
        from step Inr Inr2 rc
        have "slices past_end centre d (d_diff + 1) radii' criteria' sc m1 = Inl (e, m')" by simp
        from "2.IH"(2)[OF False sc_def Inr Inr2 rc[symmetric] this] "2.prems"(2)
        show ?thesis by (simp add: sc_def)
      qed
    qed
  qed
qed

text \<open>
  A property of the point set that every insertion of a point of the dimension of the space
  keeps is kept by \<open>octant\<close>.
\<close>

lemma octant_slices_invariant:
  assumes step: "\<And>p v m. I m \<Longrightarrow> length p = n \<Longrightarrow> I (set_point p v m)"
  shows "octant past_end centre layers d m = Inr m' \<Longrightarrow> I m \<Longrightarrow> length centre = n \<Longrightarrow> I m'"
    and "slices past_end centre d d_diff radii criteria slice_centre m = Inr m' \<Longrightarrow> I m
         \<Longrightarrow> length slice_centre = n \<Longrightarrow> I m'"
proof (induction past_end centre layers d m and past_end centre d d_diff radii criteria slice_centre m
    arbitrary: m' and m' rule: octant_slices.induct)
  case (1 past_end centre layers d m)
  from "1.prems"(1) have ok: "d < length centre" "layers \<noteq> []"
    using octant_assert[of d centre layers past_end m] by auto
  show ?case
  proof (cases "length centre - 1 = d")
    case True
    from "1.prems"(1) obtain point' layer m1 where
      loop: "layers_loop past_end layers d (centre[d := centre ! d + layers ! 0]) (layers ! 0) 0 m
               = Inr (point', layer, m1)" and
      m': "m' = set_point point' (if layer \<noteq> 0 then layer - 1 else layer) m1"
      by (auto simp: octant_base[OF ok True] split: sum.splits)
    from layers_loop_invariant[of I n, OF step loop "1.prems"(2)] "1.prems"(3)
    have "I m1 \<and> length point' = n" by simp
    with m' step show ?thesis by simp
  next
    case False
    with "1.IH"[of m'] "1.prems" ok show ?thesis by (simp add: octant_rec)
  qed
next
  case (2 past_end centre d d_diff radii criteria slice_centre m)
  show ?case
  proof (cases "radii = []")
    case True
    with "2.prems" show ?thesis by (simp add: slices_Nil)
  next
    case False
    define sc where "sc = slice_centre[d := centre ! d + d_diff]"
    note eq = "2.prems"(1)[unfolded slices_step[OF False], folded sc_def]
    from eq obtain m1 radii' criteria' where
      oct: "octant past_end sc radii (d + 1) m = Inr m1" and
      upd: "radii_loop (d_diff + 1) 0 radii criteria = Inr (radii', criteria')" and
      rec: "slices past_end centre d (d_diff + 1) radii' criteria' sc m1 = Inr m'"
      by (auto split: sum.splits)
    have len: "length sc = n" using "2.prems"(3) by (simp add: sc_def)
    from "2.IH"(1)[OF False sc_def oct "2.prems"(2) len] have "I m1" .
    from "2.IH"(2)[OF False sc_def oct upd refl rec this len] show ?thesis .
  qed
qed


section \<open>Properties of \<^verbatim>\<open>symmetry\<close>\<close>

lemma for_each_Inr_Cons:
  "for_each f (x # xs) s = Inr s' \<longleftrightarrow> (\<exists>s1. f x s = Inr s1 \<and> for_each f xs s1 = Inr s')"
  by (auto split: sum.splits)

lemma for_each_invariant:
  "for_each f xs s = Inr s' \<Longrightarrow> I s
   \<Longrightarrow> (\<And>x s s'. x \<in> set xs \<Longrightarrow> I s \<Longrightarrow> f x s = Inr s' \<Longrightarrow> I s') \<Longrightarrow> I s'"
proof (induction xs arbitrary: s)
  case Nil
  then show ?case by simp
next
  case (Cons x xs)
  from Cons.prems(1) obtain s1 where s1: "f x s = Inr s1" "for_each f xs s1 = Inr s'"
    unfolding for_each_Inr_Cons by blast
  have "I s1" using Cons.prems(3)[OF _ Cons.prems(2) s1(1)] by simp
  show ?case
  proof (rule Cons.IH[OF s1(2) \<open>I s1\<close>])
    fix y t t' assume "y \<in> set xs" "I t" "f y t = Inr t'"
    then show "I t'" using Cons.prems(3)[of y t t'] by simp
  qed
qed

lemma for_each_completes:
  "I s \<Longrightarrow> (\<And>x s. x \<in> set xs \<Longrightarrow> I s \<Longrightarrow> \<exists>s'. f x s = Inr s' \<and> I s')
   \<Longrightarrow> \<exists>s'. for_each f xs s = Inr s' \<and> I s'"
proof (induction xs arbitrary: s)
  case Nil
  then show ?case by simp
next
  case (Cons x xs)
  from Cons.prems(2)[OF _ Cons.prems(1), of x] obtain s1 where s1: "f x s = Inr s1" "I s1"
    by auto
  from Cons.IH[OF s1(2)] Cons.prems(2) obtain s' where "for_each f xs s1 = Inr s'" "I s'"
    by (metis list.set_intros(2))
  with s1 show ?case by simp
qed

lemma for_each_error:
  "for_each f xs s = Inl e \<Longrightarrow> \<exists>x \<in> set xs. \<exists>s1. f x s1 = Inl e"
  by (induction xs arbitrary: s) (auto split: sum.splits)

subsection \<open>One pass over a copy of the point set\<close>

text \<open>
  Both passes run a body of one shape over the copy \<open>xs\<close>: a point \<open>q\<close> that has the
  coordinates read (\<open>ok q\<close>) and is off the mirror (\<open>c q\<close>) has its reflection \<open>r q\<close> inserted
  with its own payload.
\<close>

lemma reflect_pass_entries:
  assumes body: "\<And>x m. f x m =
      (if ok (fst x) then (if c (fst x) then Inr (set_point (r (fst x)) (snd x) m) else Inr m)
       else Inl (OutOfRange, m))"
    and invol: "\<And>q. ok q \<Longrightarrow> r (r q) = q"
  shows "for_each f xs m0 = Inr m' \<Longrightarrow> distinct (map fst xs)
    \<Longrightarrow> set m' = set m0 \<union> {(r q, v) | q v. (q, v) \<in> set xs \<and> c q \<and> r q \<notin> fst ` set m0}"
proof (induction xs arbitrary: m0)
  case Nil
  then show ?case by simp
next
  case (Cons x xs)
  obtain q v where x: "x = (q, v)" by (cases x)
  from Cons.prems(1) obtain m1 where m1: "f x m0 = Inr m1" and rest: "for_each f xs m1 = Inr m'"
    unfolding for_each_Inr_Cons by blast
  have okq: "ok q" using m1 by (simp add: body x split: if_splits)
  have ok_xs: "ok q'" if "(q', v') \<in> set xs" for q' v'
  proof -
    have "\<forall>x \<in> set xs. ok (fst x)" using rest
    proof (induction xs arbitrary: m1)
      case Nil
      then show ?case by simp
    next
      case (Cons y ys)
      then show ?case by (auto simp: body split: if_splits sum.splits)
    qed
    with that show ?thesis by force
  qed
  from Cons.prems(2) have dist: "distinct (map fst xs)" and fresh: "q \<notin> fst ` set xs"
    by (simp_all add: x)
  note IH = Cons.IH[OF rest dist]
  show ?case
  proof (cases "c q")
    case False
    then have "m1 = m0" using m1 okq by (simp add: body x)
    with IH False show ?thesis by (auto simp: x)
  next
    case True
    then have m1_def: "m1 = set_point (r q) v m0" using m1 okq by (simp add: body x)
    have keys: "fst ` set m1 = insert (r q) (fst ` set m0)"
      by (auto simp: m1_def set_set_point get_None_iff)
    have other: "r q' \<noteq> r q" if "(q', v') \<in> set xs" for q' v'
    proof
      assume "r q' = r q"
      then have "r (r q') = r (r q)" by simp
      then have "q' = q" using invol[OF okq] invol[OF ok_xs[OF that]] by simp
      with that fresh show False by force
    qed
    have "{(r q', v') | q' v'. (q', v') \<in> set xs \<and> c q' \<and> r q' \<notin> fst ` set m1}
        = {(r q', v') | q' v'. (q', v') \<in> set xs \<and> c q' \<and> r q' \<notin> fst ` set m0}"
      using other by (auto simp: keys)
    moreover have "set m1 = set m0 \<union> {(r q, v) | x. r q \<notin> fst ` set m0}"
      by (auto simp: m1_def set_set_point get_None_iff)
    ultimately show ?thesis using IH True by (auto simp: x)
  qed
qed

lemma reflect_pass_completes:
  assumes body: "\<And>x m. f x m =
      (if ok (fst x) then (if c (fst x) then Inr (set_point (r (fst x)) (snd x) m) else Inr m)
       else Inl (OutOfRange, m))"
  shows "\<forall>x \<in> set xs. ok (fst x) \<Longrightarrow> \<exists>m'. for_each f xs m0 = Inr m'"
  by (induction xs arbitrary: m0) (auto simp: body)

lemma reflect_pass_distinct:
  assumes body: "\<And>x m. f x m =
      (if ok (fst x) then (if c (fst x) then Inr (set_point (r (fst x)) (snd x) m) else Inr m)
       else Inl (OutOfRange, m))"
  shows "for_each f xs m0 = Inr m' \<Longrightarrow> distinct (map fst m0) \<Longrightarrow> distinct (map fst m')"
  by (erule for_each_invariant) (auto simp: body distinct_set_point split: if_splits)

lemma diagonal_reflect_body:
  "diagonal_reflect d b x m =
     (if d < length (fst x) \<and> b < length (fst x) then
        (if fst x ! d \<noteq> fst x ! b
         then Inr (set_point ((fst x)[d := fst x ! b, b := fst x ! d]) (snd x) m) else Inr m)
      else Inl (OutOfRange, m))"
  by (simp add: diagonal_reflect_def Let_def)

lemma axial_reflect_body:
  "axial_reflect d x m =
     (if d < length (fst x) then
        (if fst x ! d \<noteq> 0
         then Inr (set_point ((fst x)[d := - (fst x ! d)]) (snd x) m) else Inr m)
      else Inl (OutOfRange, m))"
  by (auto simp: axial_reflect_def Let_def)

lemma swap_swap:
  "d < length q \<and> b < length q \<Longrightarrow> (q[d := q ! b, b := q ! d])
     [d := q[d := q ! b, b := q ! d] ! b, b := q[d := q ! b, b := q ! d] ! d] = q"
  by (rule nth_equalityI) (auto simp: nth_list_update)

lemma negate_negate:
  "d < length q \<Longrightarrow> (q[d := - (q ! d)])[d := - (q[d := - (q ! d)] ! d)] = (q :: int list)"
  by (rule nth_equalityI) (auto simp: nth_list_update)

subsection \<open>All passes\<close>

lemma diagonal_pass_eq:
  "diagonal_pass dimension d m = for_each (diagonal_reflect d ((d + 1) mod dimension)) m m"
  by (simp add: diagonal_pass_def Let_def)

lemma axial_pass_eq: "axial_pass d m = for_each (axial_reflect d) m m"
  by (simp add: axial_pass_def Let_def)

lemma symmetry_Inr:
  "symmetry dimension m = Inr m' \<longleftrightarrow>
     (\<exists>m1. for_each (diagonal_pass dimension) [0..<dimension] m = Inr m1
          \<and> for_each axial_pass [0..<dimension] m1 = Inr m')"
  by (auto simp: symmetry_def split: sum.splits)

lemma symmetry_error: "symmetry dimension m = Inl (e, m') \<Longrightarrow> e = OutOfRange"
proof -
  assume "symmetry dimension m = Inl (e, m')"
  then consider
    "for_each (diagonal_pass dimension) [0..<dimension] m = Inl (e, m')"
    | m1 where "for_each axial_pass [0..<dimension] m1 = Inl (e, m')"
    by (auto simp: symmetry_def split: sum.splits)
  then show ?thesis
  proof cases
    case 1
    then obtain d s where "diagonal_pass dimension d s = Inl (e, m')"
      by (blast dest: for_each_error)
    then obtain x s' where "diagonal_reflect d ((d + 1) mod dimension) x s' = Inl (e, m')"
      unfolding diagonal_pass_eq by (blast dest: for_each_error)
    then show ?thesis by (simp add: diagonal_reflect_body split: if_splits)
  next
    case 2
    then obtain d s where "axial_pass d s = Inl (e, m')"
      by (blast dest: for_each_error)
    then obtain x s' where "axial_reflect d x s' = Inl (e, m')"
      unfolding axial_pass_eq by (blast dest: for_each_error)
    then show ?thesis by (simp add: axial_reflect_body split: if_splits)
  qed
qed

text \<open>
  A property of the entries that a reflection keeps holds for all entries after a pass,
  and after \<open>symmetry\<close>, if it holds for all entries before.
\<close>

lemma reflect_pass_all:
  assumes body: "\<And>x m. f x m =
      (if ok (fst x) then (if c (fst x) then Inr (set_point (r (fst x)) (snd x) m) else Inr m)
       else Inl (OutOfRange, m))"
    and keep: "\<And>q v. E (q, v) \<Longrightarrow> E (r q, v)"
  shows "for_each f xs s = Inr s' \<Longrightarrow> \<forall>x \<in> set xs. E x \<Longrightarrow> \<forall>x \<in> set s. E x
         \<Longrightarrow> \<forall>x \<in> set s'. E x"
proof (erule for_each_invariant[where I = "\<lambda>s. \<forall>x \<in> set s. E x"], assumption)
  fix x s s'
  assume x: "x \<in> set xs" and s: "\<forall>x \<in> set s. E x" and f: "f x s = Inr s'"
    and all: "\<forall>x \<in> set xs. E x"
  from all x have "E (fst x, snd x)" by simp
  then have "E (r (fst x), snd x)" by (rule keep)
  with f s show "\<forall>x \<in> set s'. E x"
    by (auto simp: body set_set_point split: if_splits)
qed

lemma symmetry_all:
  assumes keep_swap: "\<And>q v d b. E (q, v) \<Longrightarrow> E (q[d := q ! b, b := q ! d], v)"
    and keep_neg: "\<And>q v d. E (q, v) \<Longrightarrow> E (q[d := - (q ! d)], v)"
  shows "symmetry dimension m = Inr m' \<Longrightarrow> \<forall>x \<in> set m. E x \<Longrightarrow> \<forall>x \<in> set m'. E x"
proof -
  assume "symmetry dimension m = Inr m'" and m: "\<forall>x \<in> set m. E x"
  then obtain m1 where
    diag: "for_each (diagonal_pass dimension) [0..<dimension] m = Inr m1" and
    axial: "for_each axial_pass [0..<dimension] m1 = Inr m'"
    by (auto simp: symmetry_Inr)
  have "\<forall>x \<in> set m1. E x"
  proof (rule for_each_invariant[OF diag, where I = "\<lambda>s. \<forall>x \<in> set s. E x"])
    show "\<forall>x \<in> set m. E x" by (rule m)
  next
    fix d s s' assume "\<forall>x \<in> set s. E x" "diagonal_pass dimension d s = Inr s'"
    then show "\<forall>x \<in> set s'. E x"
      using reflect_pass_all[of "diagonal_reflect d ((d + 1) mod dimension)" _ _ _ E s s s',
          OF diagonal_reflect_body keep_swap]
      by (simp add: diagonal_pass_eq)
  qed
  show "\<forall>x \<in> set m'. E x"
  proof (rule for_each_invariant[OF axial, where I = "\<lambda>s. \<forall>x \<in> set s. E x"])
    show "\<forall>x \<in> set m1. E x" by fact
  next
    fix d s s' assume "\<forall>x \<in> set s. E x" "axial_pass d s = Inr s'"
    then show "\<forall>x \<in> set s'. E x"
      using reflect_pass_all[of "axial_reflect d" _ _ _ E s s s',
          OF axial_reflect_body keep_neg]
      by (simp add: axial_pass_eq)
  qed
qed

lemma symmetry_distinct:
  "symmetry dimension m = Inr m' \<Longrightarrow> distinct (map fst m) \<Longrightarrow> distinct (map fst m')"
proof -
  assume "symmetry dimension m = Inr m'" and m: "distinct (map fst m)"
  then obtain m1 where
    diag: "for_each (diagonal_pass dimension) [0..<dimension] m = Inr m1" and
    axial: "for_each axial_pass [0..<dimension] m1 = Inr m'"
    by (auto simp: symmetry_Inr)
  have "distinct (map fst m1)"
    by (rule for_each_invariant[OF diag, where I = "\<lambda>s. distinct (map fst s)"])
       (auto simp: m diagonal_pass_eq
             intro: reflect_pass_distinct[OF diagonal_reflect_body])
  then show "distinct (map fst m')"
    by (rule for_each_invariant[OF axial, where I = "\<lambda>s. distinct (map fst s)"])
       (auto simp: axial_pass_eq intro: reflect_pass_distinct[OF axial_reflect_body])
qed

text \<open>
  The passes read the coordinates \<open>d\<close> and \<open>(d + 1) mod dimension\<close>, both below \<open>dimension\<close>:
  on a set of points with \<open>dimension\<close> coordinates each, \<open>symmetry\<close> completes.
\<close>

lemma symmetry_completes:
  assumes "\<forall>x \<in> set m. length (fst x) = dimension"
  shows "\<exists>m'. symmetry dimension m = Inr m'"
proof -
  let ?I = "\<lambda>s :: nat set_t. \<forall>x \<in> set s. length (fst x) = dimension"
  have "\<exists>m1. for_each (diagonal_pass dimension) [0..<dimension] m = Inr m1 \<and> ?I m1"
  proof (rule for_each_completes[where I = ?I, OF assms])
    fix d s assume d: "d \<in> set [0..<dimension]" and s: "?I s"
    then have "\<forall>x \<in> set s. d < length (fst x) \<and> (d + 1) mod dimension < length (fst x)"
      by simp
    from reflect_pass_completes[OF diagonal_reflect_body this]
    obtain s' where s': "diagonal_pass dimension d s = Inr s'"
      by (auto simp: diagonal_pass_eq)
    then have "?I s'"
      using reflect_pass_all[of "diagonal_reflect d ((d + 1) mod dimension)" _ _ _
          "\<lambda>x. length (fst x) = dimension" s s s', OF diagonal_reflect_body] s
      by (simp add: diagonal_pass_eq)
    with s' show "\<exists>s'. diagonal_pass dimension d s = Inr s' \<and> ?I s'" by blast
  qed
  then obtain m1 where
    diag: "for_each (diagonal_pass dimension) [0..<dimension] m = Inr m1" and m1: "?I m1"
    by blast
  have "\<exists>m'. for_each axial_pass [0..<dimension] m1 = Inr m' \<and> ?I m'"
  proof (rule for_each_completes[where I = ?I, OF m1])
    fix d s assume d: "d \<in> set [0..<dimension]" and s: "?I s"
    then have "\<forall>x \<in> set s. d < length (fst x)" by simp
    from reflect_pass_completes[OF axial_reflect_body this]
    obtain s' where s': "axial_pass d s = Inr s'"
      by (auto simp: axial_pass_eq)
    then have "?I s'"
      using reflect_pass_all[of "axial_reflect d" _ _ _
          "\<lambda>x. length (fst x) = dimension" s s s', OF axial_reflect_body] s
      by (simp add: axial_pass_eq)
    with s' show "\<exists>s'. axial_pass d s = Inr s' \<and> ?I s'" by blast
  qed
  with diag show ?thesis by (auto simp: symmetry_Inr)
qed


section \<open>Properties of the constructor\<close>

lemma hypersphere_Inr:
  "hypersphere past_end dimension layers = Inr h \<longleftrightarrow>
     0 < dimension \<and>
     (\<exists>m. octant past_end (replicate dimension 0) layers 0 [] = Inr m \<and> symmetry dimension m = Inr h)"
  by (auto simp: hypersphere_def split: sum.splits)

lemma hypersphere_distinct:
  assumes "hypersphere past_end dimension layers = Inr h"
  shows "distinct (map fst h)"
proof -
  from assms obtain m where
    oct: "octant past_end (replicate dimension 0) layers 0 [] = Inr m" and sym: "symmetry dimension m = Inr h"
    by (auto simp: hypersphere_Inr)
  have "distinct (map fst m)"
    by (rule octant_slices_invariant(1)[where I = "\<lambda>m. distinct (map fst m)", OF _ oct])
       (simp_all add: distinct_set_point)
  with sym show ?thesis by (rule symmetry_distinct)
qed

lemma hypersphere_sorted:
  assumes "hypersphere past_end dimension layers = Inr h"
  shows "sorted_wrt point_less (map fst h)"
proof -
  let ?I = "\<lambda>m :: nat set_t. sorted_wrt point_less (map fst m)"
  from assms obtain m where
    oct: "octant past_end (replicate dimension 0) layers 0 [] = Inr m" and sym: "symmetry dimension m = Inr h"
    by (auto simp: hypersphere_Inr)
  from sym obtain m1 where
    diag: "for_each (diagonal_pass dimension) [0..<dimension] m = Inr m1" and
    axial: "for_each axial_pass [0..<dimension] m1 = Inr h"
    by (auto simp: symmetry_Inr)
  have pass: "?I s'" if "for_each f xs s = Inr s'" "?I s"
    and body: "\<And>x m. f x m =
      (if ok (fst x) then (if c (fst x) then Inr (set_point (r (fst x)) (snd x) m) else Inr m)
       else Inl (OutOfRange, m))"
    for f :: "point \<times> nat \<Rightarrow> nat set_t \<Rightarrow> failure + nat set_t" and xs s s' ok c r
    by (rule for_each_invariant[where I = ?I, OF that(1,2)])
       (auto simp: body sorted_set_point split: if_splits)
  have "?I m"
    by (rule octant_slices_invariant(1)[where I = ?I, OF _ oct]) (simp_all add: sorted_set_point)
  then have "?I m1"
    by (rule for_each_invariant[where I = ?I, OF diag])
       (auto simp: diagonal_pass_eq intro: pass[OF _ _ diagonal_reflect_body])
  then show "?I h"
    by (rule for_each_invariant[where I = ?I, OF axial])
       (auto simp: axial_pass_eq intro: pass[OF _ _ axial_reflect_body])
qed

subsection \<open>Constructions that go on after the read past the end\<close>

text \<open>
  When every read past the end of the layers finds a value, no step of \<open>octant\<close> stops: the
  assertions hold in every recursive call and the indices of the slicing loop are in bounds.
\<close>

lemma octant_slices_unchecked:
  "\<forall>p. past_end p \<noteq> None \<Longrightarrow> d < length centre \<Longrightarrow> layers \<noteq> []
   \<Longrightarrow> \<exists>m'. octant past_end centre layers d m = Inr m'"
  "\<forall>p. past_end p \<noteq> None \<Longrightarrow> d + 1 < length slice_centre \<Longrightarrow> length radii \<le> length criteria
   \<Longrightarrow> \<exists>m'. slices past_end centre d d_diff radii criteria slice_centre m = Inr m'"
proof (induction past_end centre layers d m and past_end centre d d_diff radii criteria slice_centre m
    rule: octant_slices.induct)
  case (1 past_end centre layers d m)
  note ok = "1.prems"(2,3)
  show ?case
  proof (cases "length centre - 1 = d")
    case True
    from layers_loop_unchecked[OF "1.prems"(1)]
    obtain r where
      "layers_loop past_end layers d (centre[d := centre ! d + layers ! 0]) (layers ! 0) 0 m = Inr r"
      by blast
    then show ?thesis by (cases r) (simp add: octant_base[OF ok True])
  next
    case False
    with ok have "d + 1 < length centre" by simp
    with "1.IH" "1.prems" False show ?thesis by (simp add: octant_rec)
  qed
next
  case (2 past_end centre d d_diff radii criteria slice_centre m)
  show ?case
  proof (cases "radii = []")
    case True
    then show ?thesis by (simp add: slices_Nil)
  next
    case False
    define sc where "sc = slice_centre[d := centre ! d + d_diff]"
    have len: "d + 1 < length sc" using "2.prems"(2) by (simp add: sc_def)
    from "2.IH"(1)[OF False sc_def "2.prems"(1) len False]
    obtain m1 where oct: "octant past_end sc radii (d + 1) m = Inr m1" by blast
    from radii_loop_in_bounds[OF "2.prems"(3), of "d_diff + 1" 0]
    obtain radii' criteria' where
      upd: "radii_loop (d_diff + 1) 0 radii criteria = Inr (radii', criteria')" and
      bounds: "length radii' \<le> length radii" "length criteria' = length criteria"
      by blast
    from bounds "2.prems"(3) have "length radii' \<le> length criteria'" by simp
    from "2.IH"(2)[OF False sc_def oct upd refl "2.prems"(1) len this]
    obtain m' where "slices past_end centre d (d_diff + 1) radii' criteria' sc m1 = Inr m'"
      by blast
    with oct upd show ?thesis by (simp add: slices_step[OF False] sc_def)
  qed
qed

text \<open>
  With a positive dimension, layers that are not empty and reads past the end that find
  some value, the constructor returns a point set.
\<close>

lemma hypersphere_unchecked:
  assumes "0 < dimension" "layers \<noteq> []" "\<forall>p. past_end p \<noteq> None"
  shows "\<exists>h. hypersphere past_end dimension layers = Inr h"
proof -
  from octant_slices_unchecked(1)[OF assms(3), of 0 "replicate dimension 0" layers "[]"] assms
  obtain m where oct: "octant past_end (replicate dimension 0) layers 0 [] = Inr m" by auto
  have "\<forall>x \<in> set m. length (fst x) = dimension"
    by (rule octant_slices_invariant(1)
          [where I = "\<lambda>m. \<forall>x \<in> set m. length (fst x) = dimension" and n = dimension, OF _ oct])
       (auto simp: set_set_point split: if_splits)
  from symmetry_completes[OF this] obtain h where "symmetry dimension m = Inr h" by blast
  with oct assms(1) show ?thesis by (auto simp: hypersphere_Inr)
qed

subsection \<open>Constructions that reach the read past the end\<close>

text \<open>
  At a radius that no layer is below, the layer-advance loop advances to the last layer and
  reads past the end; the checked access stops there.
\<close>

lemma layer_advance_fails:
  "\<forall>x \<in> set layers. radius \<le> x \<Longrightarrow> layer < length layers
   \<Longrightarrow> layer_advance None layers radius layer = Inl OutOfRange"
proof (induction "None :: int option" layers radius layer rule: layer_advance.induct)
  case (1 layers radius layer)
  show ?case
  proof (cases "layer + 1 < length layers")
    case True
    with "1.prems" have "radius \<le> layers ! (layer + 1)" by simp
    with True "1.prems" "1.hyps" show ?thesis
      by (subst layer_advance.simps) simp
  next
    case False
    with "1.prems" show ?thesis by (subst layer_advance.simps) simp
  qed
qed

lemma layer_advance_bound:
  "layer_advance None layers radius layer = Inr layer' \<Longrightarrow> layer < length layers
   \<Longrightarrow> layer' < length layers"
  by (induction "None :: int option" layers radius layer rule: layer_advance.induct)
     (subst (asm) (2) layer_advance.simps, auto split: if_splits)

text \<open>
  With non-increasing layers, a loop of the base case that is entered comes to the read past
  the end: its last iteration runs the layer-advance loop at the radius of the last layer.
\<close>

lemma layers_loop_fails:
  "\<forall>p. past_end p = None \<Longrightarrow> \<forall>x \<in> set layers. layers ! (length layers - 1) \<le> x
   \<Longrightarrow> layer < length layers \<Longrightarrow> layers ! (length layers - 1) < radius
   \<Longrightarrow> \<exists>f. layers_loop past_end layers d point radius layer m = Inl f"
proof (induction past_end layers d point radius layer m rule: layers_loop.induct)
  case (1 past_end layers d point radius layer m)
  from "1.prems"(1) have none: "past_end (point[d := point ! d - 1]) = None" by simp
  show ?case
  proof (cases "layer_advance None layers (radius - 1) layer")
    case (Inl e)
    with "1.prems" none show ?thesis by (subst layers_loop.simps) simp
  next
    case (Inr layer')
    have "layers ! (length layers - 1) < radius - 1"
    proof (rule ccontr)
      assume "\<not> layers ! (length layers - 1) < radius - 1"
      with "1.prems"(2) have "\<forall>x \<in> set layers. radius - 1 \<le> x" by auto
      from layer_advance_fails[OF this "1.prems"(3)] Inr show False by simp
    qed
    moreover have "layer' < length layers"
      using layer_advance_bound[OF Inr "1.prems"(3)] .
    ultimately obtain f where
      "layers_loop past_end layers d (point[d := point ! d - 1]) (radius - 1) layer'
         (set_point point layer m) = Inl f"
      using "1.IH"[OF "1.prems"(4) Inr[folded none] "1.prems"(1,2)] by blast
    with Inr none "1.prems"(4) show ?thesis by (subst layers_loop.simps) simp
  qed
qed

text \<open>
  The first slice at every level (\<open>d_diff = 0\<close>) is computed with the layers as they were
  passed, so the first call of the base case sees the layers of the caller. With
  non-increasing layers that call gets past the checked access only if the first layer is
  not above the last.
\<close>

lemma octant_slices_first_slice:
  "\<forall>p. past_end p = None \<Longrightarrow> octant past_end centre layers d m = Inr m'
   \<Longrightarrow> \<forall>x \<in> set layers. layers ! (length layers - 1) \<le> x
   \<Longrightarrow> layers ! 0 \<le> layers ! (length layers - 1)"
  "\<forall>p. past_end p = None \<Longrightarrow> slices past_end centre d d_diff radii criteria slice_centre m = Inr m'
   \<Longrightarrow> radii \<noteq> [] \<Longrightarrow> \<forall>x \<in> set radii. radii ! (length radii - 1) \<le> x
   \<Longrightarrow> radii ! 0 \<le> radii ! (length radii - 1)"
proof (induction past_end centre layers d m and past_end centre d d_diff radii criteria slice_centre m
    arbitrary: m' and m' rule: octant_slices.induct)
  case (1 past_end centre layers d m)
  from "1.prems"(2) have ok: "d < length centre" "layers \<noteq> []"
    using octant_assert[of d centre layers past_end m] by auto
  show ?case
  proof (cases "length centre - 1 = d")
    case True
    show ?thesis
    proof (rule ccontr)
      assume "\<not> layers ! 0 \<le> layers ! (length layers - 1)"
      then have "layers ! (length layers - 1) < layers ! 0" by simp
      moreover have "0 < length layers" using ok by simp
      ultimately obtain f where
        "layers_loop past_end layers d (centre[d := centre ! d + layers ! 0]) (layers ! 0) 0 m
           = Inl f"
        using layers_loop_fails[OF "1.prems"(1,3)] by blast
      with "1.prems"(2) show False by (simp add: octant_base[OF ok True])
    qed
  next
    case False
    with "1.IH"[of m'] "1.prems" ok show ?thesis by (simp add: octant_rec)
  qed
next
  case (2 past_end centre d d_diff radii criteria slice_centre m)
  define sc where "sc = slice_centre[d := centre ! d + d_diff]"
  from "2.prems"(2,3) obtain m1 where "octant past_end sc radii (d + 1) m = Inr m1"
    by (auto simp: slices_step sc_def split: sum.splits)
  from "2.IH"(1)[OF "2.prems"(3) sc_def "2.prems"(1) this "2.prems"(4)] show ?case .
qed

text \<open>Non-increasing layers: the first is the largest and the last is the smallest.\<close>

lemma non_increasing_bounds:
  "sorted_wrt (\<lambda>a b. b \<le> a) (layers :: int list) \<Longrightarrow> x \<in> set layers
   \<Longrightarrow> layers ! (length layers - 1) \<le> x \<and> x \<le> layers ! 0"
proof (induction layers)
  case Nil
  then show ?case by simp
next
  case (Cons a layers)
  show ?case
  proof (cases "layers = []")
    case True
    with Cons.prems show ?thesis by simp
  next
    case False
    then have last: "(a # layers) ! (length (a # layers) - 1) = layers ! (length layers - 1)"
      by (cases layers) simp_all
    have "layers ! (length layers - 1) \<in> set layers" using False by simp
    with Cons show ?thesis unfolding last by force
  qed
qed

text \<open>
  With non-increasing layers that do not all have one radius, every construction makes the
  read past the end of the layers: under the checked access it stops there.
\<close>

lemma hypersphere_reads_past_layers:
  assumes "0 < dimension" and "layers \<noteq> []" and "sorted_wrt (\<lambda>a b. b \<le> a) layers"
    and "\<exists>x \<in> set layers. x \<noteq> layers ! 0"
  shows "\<exists>m. hypersphere (\<lambda>p. None) dimension layers = Inl (OutOfRange, m)"
proof (cases "hypersphere (\<lambda>p. None) dimension layers")
  case (Inl f)
  obtain e m where f: "f = (e, m)" by (cases f)
  from Inl f assms(1) consider "octant (\<lambda>p. None) (replicate dimension 0) layers 0 [] = Inl (e, m)"
    | m0 where "symmetry dimension m0 = Inl (e, m)"
    by (auto simp: hypersphere_def split: sum.splits)
  then have "e = OutOfRange"
  proof cases
    case 1
    from octant_slices_error(1)[OF this] assms(1,2) show ?thesis by simp
  next
    case 2
    then show ?thesis by (rule symmetry_error)
  qed
  with Inl f show ?thesis by simp
next
  case (Inr h)
  then obtain m where "octant (\<lambda>p. None) (replicate dimension 0) layers 0 [] = Inr m"
    by (auto simp: hypersphere_Inr)
  from octant_slices_first_slice(1)[OF _ this] non_increasing_bounds[OF assms(3)]
  have "layers ! 0 \<le> layers ! (length layers - 1)" by blast
  with non_increasing_bounds[OF assms(3)] have "\<forall>x \<in> set layers. x = layers ! 0" by force
  with assms(4) show ?thesis by blast
qed

subsection \<open>The passes and the specification\<close>

text \<open>
  A pass over a copy of the point set makes one call of \<^verbatim>\<open>set\<close> for every entry of the copy
  that meets the condition, in the order of the copy, and no other call.
\<close>

lemma spec_insert_all_Nil: "spec_insert_all [] m = m"
  by (simp add: spec_insert_all_def)

lemma spec_insert_all_Cons:
  "spec_insert_all ((p, v) # insertions) m = spec_insert_all insertions (set_point p v m)"
  by (simp add: spec_insert_all_def)

lemma reflect_pass_traced:
  assumes body: "\<And>x calls m. f x (calls, m) =
      (if ok (fst x) then
         (if c (fst x) then Inr (calls @ [(r (fst x), snd x)], set_point (r (fst x)) (snd x) m)
          else Inr (calls, m))
       else Inl (OutOfRange, m))"
  shows "\<forall>x \<in> set xs. ok (fst x)
    \<Longrightarrow> for_each f xs (calls, m) =
          Inr (calls @ [(r q, v). (q, v) \<leftarrow> xs, c q],
               spec_insert_all [(r q, v). (q, v) \<leftarrow> xs, c q] m)"
proof (induction xs arbitrary: calls m)
  case Nil
  then show ?case by (simp add: spec_insert_all_Nil)
next
  case (Cons x xs)
  obtain q v where x: "x = (q, v)" by (cases x)
  from Cons.prems have ok: "ok q" and rest: "\<forall>x \<in> set xs. ok (fst x)" by (simp_all add: x)
  show ?case
  proof (cases "c q")
    case True
    with ok Cons.IH[OF rest] show ?thesis by (simp add: body x spec_insert_all_Cons)
  next
    case False
    with ok Cons.IH[OF rest] show ?thesis by (simp add: body x)
  qed
qed

lemma reflect_pass_store:
  assumes body: "\<And>x m. f x m =
      (if ok (fst x) then (if c (fst x) then Inr (set_point (r (fst x)) (snd x) m) else Inr m)
       else Inl (OutOfRange, m))"
  shows "\<forall>x \<in> set xs. ok (fst x)
    \<Longrightarrow> for_each f xs m = Inr (spec_insert_all [(r q, v). (q, v) \<leftarrow> xs, c q] m)"
proof (induction xs arbitrary: m)
  case Nil
  then show ?case by (simp add: spec_insert_all_Nil)
next
  case (Cons x xs)
  obtain q v where x: "x = (q, v)" by (cases x)
  from Cons.prems have ok: "ok q" and rest: "\<forall>x \<in> set xs. ok (fst x)" by (simp_all add: x)
  show ?case
  proof (cases "c q")
    case True
    with ok Cons.IH[OF rest] show ?thesis by (simp add: body x spec_insert_all_Cons)
  next
    case False
    with ok Cons.IH[OF rest] show ?thesis by (simp add: body x)
  qed
qed

lemma diagonal_reflect_traced_body:
  "diagonal_reflect_traced d b x (calls, m) =
     (if d < length (fst x) \<and> b < length (fst x) then
        (if fst x ! d \<noteq> fst x ! b
         then Inr (calls @ [((fst x)[d := fst x ! b, b := fst x ! d], snd x)],
                   set_point ((fst x)[d := fst x ! b, b := fst x ! d]) (snd x) m)
         else Inr (calls, m))
      else Inl (OutOfRange, m))"
  by (simp add: Let_def)

lemma axial_reflect_traced_body:
  "axial_reflect_traced d x (calls, m) =
     (if d < length (fst x) then
        (if fst x ! d \<noteq> 0
         then Inr (calls @ [((fst x)[d := - (fst x ! d)], snd x)],
                   set_point ((fst x)[d := - (fst x ! d)]) (snd x) m)
         else Inr (calls, m))
      else Inl (OutOfRange, m))"
  by (simp add: Let_def)

text \<open>Points of the dimension of the space stay so under the insertions of a pass.\<close>

lemma spec_insert_all_lengths:
  "\<forall>x \<in> set m. length (fst x) = n \<Longrightarrow> \<forall>x \<in> set insertions. length (fst x) = n
   \<Longrightarrow> \<forall>x \<in> set (spec_insert_all insertions m). length (fst x) = n"
proof (induction insertions arbitrary: m)
  case Nil
  then show ?case by (simp add: spec_insert_all_Nil)
next
  case (Cons a insertions)
  obtain p v where a: "a = (p, v)" by (cases a)
  from Cons.prems have "\<forall>x \<in> set (set_point p v m). length (fst x) = n"
    by (auto simp: a set_set_point split: if_splits)
  from Cons.IH[OF this] Cons.prems(2) show ?case by (simp add: a spec_insert_all_Cons)
qed

lemma spec_diagonal_reflections_lengths:
  "\<forall>x \<in> set m. length (fst x) = n
   \<Longrightarrow> \<forall>x \<in> set (spec_diagonal_reflections dimension d m). length (fst x) = n"
  by (auto simp: spec_diagonal_reflections_def)

lemma spec_axial_reflections_lengths:
  "\<forall>x \<in> set m. length (fst x) = n
   \<Longrightarrow> \<forall>x \<in> set (spec_axial_reflections d m). length (fst x) = n"
  by (auto simp: spec_axial_reflections_def)

lemma spec_pass_lengths:
  assumes "\<forall>x \<in> set (snd s). length (fst x) = n"
    and "\<And>m. \<forall>x \<in> set m. length (fst x) = n \<Longrightarrow> \<forall>x \<in> set (reflections m). length (fst x) = n"
  shows "\<forall>x \<in> set (snd (spec_pass reflections s)). length (fst x) = n"
  using spec_insert_all_lengths[OF assms(1) assms(2)[OF assms(1)]]
  by (simp add: spec_pass_def Let_def)

text \<open>One pass of \<^verbatim>\<open>symmetry\<close> is one pass of the specification.\<close>

lemma diagonal_pass_traced_spec:
  assumes "\<forall>x \<in> set (snd s). length (fst x) = dimension" and "d < dimension"
  shows "diagonal_pass_traced dimension d s
           = Inr (spec_pass (spec_diagonal_reflections dimension d) s)"
proof -
  obtain passes m where s: "s = (passes, m)" by (cases s)
  from assms have "\<forall>x \<in> set m. d < length (fst x) \<and> (d + 1) mod dimension < length (fst x)"
    by (simp add: s)
  from reflect_pass_traced[where f = "diagonal_reflect_traced d ((d + 1) mod dimension)",
      OF diagonal_reflect_traced_body this, of "[]" m]
  show ?thesis
    by (simp add: s spec_pass_def spec_diagonal_reflections_def Let_def)
qed

lemma axial_pass_traced_spec:
  assumes "\<forall>x \<in> set (snd s). length (fst x) = dimension" and "d < dimension"
  shows "axial_pass_traced d s = Inr (spec_pass (spec_axial_reflections d) s)"
proof -
  obtain passes m where s: "s = (passes, m)" by (cases s)
  from assms have "\<forall>x \<in> set m. d < length (fst x)" by (simp add: s)
  from reflect_pass_traced[where f = "axial_reflect_traced d",
      OF axial_reflect_traced_body this, of "[]" m]
  show ?thesis
    by (simp add: s spec_pass_def spec_axial_reflections_def Let_def)
qed

lemma diagonal_pass_spec:
  assumes "\<forall>x \<in> set m. length (fst x) = dimension" and "d < dimension"
  shows "diagonal_pass dimension d m
           = Inr (spec_insert_all (spec_diagonal_reflections dimension d m) m)"
proof -
  from assms have "\<forall>x \<in> set m. d < length (fst x) \<and> (d + 1) mod dimension < length (fst x)"
    by simp
  from reflect_pass_store[where f = "diagonal_reflect d ((d + 1) mod dimension)",
      OF diagonal_reflect_body this, of m]
  show ?thesis by (simp add: diagonal_pass_eq spec_diagonal_reflections_def)
qed

lemma axial_pass_spec:
  assumes "\<forall>x \<in> set m. length (fst x) = dimension" and "d < dimension"
  shows "axial_pass d m = Inr (spec_insert_all (spec_axial_reflections d m) m)"
proof -
  from assms have "\<forall>x \<in> set m. d < length (fst x)" by simp
  from reflect_pass_store[where f = "axial_reflect d", OF axial_reflect_body this, of m]
  show ?thesis by (simp add: axial_pass_eq spec_axial_reflections_def)
qed

text \<open>A sequence of passes of one kind.\<close>

lemma diagonal_passes_spec:
  "\<forall>x \<in> set (snd s). length (fst x) = dimension \<Longrightarrow> \<forall>d \<in> set ds. d < dimension
   \<Longrightarrow> for_each (diagonal_pass_traced dimension) ds s
         = Inr (foldl (\<lambda>s reflections. spec_pass reflections s) s
                  (map (spec_diagonal_reflections dimension) ds))
     \<and> for_each (diagonal_pass dimension) ds (snd s)
         = Inr (snd (foldl (\<lambda>s reflections. spec_pass reflections s) s
                       (map (spec_diagonal_reflections dimension) ds)))
     \<and> (\<forall>x \<in> set (snd (foldl (\<lambda>s reflections. spec_pass reflections s) s
                             (map (spec_diagonal_reflections dimension) ds))).
           length (fst x) = dimension)"
proof (induction ds arbitrary: s)
  case Nil
  then show ?case by simp
next
  case (Cons d ds)
  from Cons.prems have d: "d < dimension" and rest: "\<forall>d \<in> set ds. d < dimension" by simp_all
  let ?s1 = "spec_pass (spec_diagonal_reflections dimension d) s"
  have len1: "\<forall>x \<in> set (snd ?s1). length (fst x) = dimension"
    by (rule spec_pass_lengths[OF Cons.prems(1)]) (rule spec_diagonal_reflections_lengths)
  have snd1: "snd ?s1 = spec_insert_all (spec_diagonal_reflections dimension d (snd s)) (snd s)"
    by (simp add: spec_pass_def Let_def)
  from Cons.IH[OF len1 rest] diagonal_pass_traced_spec[OF Cons.prems(1) d]
    diagonal_pass_spec[OF Cons.prems(1) d]
  show ?case by (simp add: snd1)
qed

lemma axial_passes_spec:
  "\<forall>x \<in> set (snd s). length (fst x) = dimension \<Longrightarrow> \<forall>d \<in> set ds. d < dimension
   \<Longrightarrow> for_each axial_pass_traced ds s
         = Inr (foldl (\<lambda>s reflections. spec_pass reflections s) s
                  (map spec_axial_reflections ds))
     \<and> for_each axial_pass ds (snd s)
         = Inr (snd (foldl (\<lambda>s reflections. spec_pass reflections s) s
                       (map spec_axial_reflections ds)))
     \<and> (\<forall>x \<in> set (snd (foldl (\<lambda>s reflections. spec_pass reflections s) s
                             (map spec_axial_reflections ds))).
           length (fst x) = dimension)"
proof (induction ds arbitrary: s)
  case Nil
  then show ?case by simp
next
  case (Cons d ds)
  from Cons.prems have d: "d < dimension" and rest: "\<forall>d \<in> set ds. d < dimension" by simp_all
  let ?s1 = "spec_pass (spec_axial_reflections d) s"
  have len1: "\<forall>x \<in> set (snd ?s1). length (fst x) = dimension"
    by (rule spec_pass_lengths[OF Cons.prems(1)]) (rule spec_axial_reflections_lengths)
  have snd1: "snd ?s1 = spec_insert_all (spec_axial_reflections d (snd s)) (snd s)"
    by (simp add: spec_pass_def Let_def)
  from Cons.IH[OF len1 rest] axial_pass_traced_spec[OF Cons.prems(1) d]
    axial_pass_spec[OF Cons.prems(1) d]
  show ?case by (simp add: snd1)
qed

section \<open>The claims\<close>

text \<open>
  The equations that run a construction on given arguments, for the constructions in which
  what is read past the end of the layers is not a given value.
\<close>

lemmas construction_simps = hypersphere_def octant.simps slices.simps layers_loop.simps
  layer_advance.simps radii_loop.simps symmetry_def diagonal_pass_def axial_pass_def
  diagonal_reflect_def axial_reflect_def set_point_def emplace_def Let_def

subsection \<open>C1: indices stay in bounds\<close>

text \<open>
  C1 fails on the code. With \<open>dimension = 1\<close> and \<open>layers = [3, 0]\<close> the loop of the base case
  runs down to \<open>radius = 0\<close>; there the layer-advance loop moves to \<open>layer = 1\<close>, its guard
  \<^verbatim>\<open>layer < layers.size()\<close> still holds, and it reads \<^verbatim>\<open>layers[2]\<close>, past the end of the
  two layers: the out-of-range branch of the checked access is reached, after the points
  \<open>3\<close>, \<open>2\<close> and \<open>1\<close> have been inserted.
\<close>

theorem octant_reads_past_layers:
  "layer_advance None [3, 0] 0 0 = Inl OutOfRange
   \<and> octant (\<lambda>p. None) [0] [3, 0] 0 [] = Inl (OutOfRange, [([1], 0), ([2], 0), ([3], 0)])"
  by code_simp

subsection \<open>C2: dimension 1, layers [3, 0]\<close>

text \<open>
  C2 as stated fails: whatever the read past the end does, the construction with
  \<open>dimension = 1\<close> and \<open>layers = [3, 0]\<close> does not yield the three entries \<open>-3: 0\<close>, \<open>0: 1\<close>,
  \<open>3: 0\<close>.
\<close>

theorem hypersphere_1_3_0_not_three_points:
  "\<forall>past_end. hypersphere past_end 1 [3, 0] \<noteq> Inr [([- 3], 0), ([0], 1), ([3], 0)]"
proof
  fix past_end :: "point \<Rightarrow> int option"
  show "hypersphere past_end 1 [3, 0] \<noteq> Inr [([- 3], 0), ([0], 1), ([3], 0)]"
  proof (cases "past_end [0]")
    case None
    then show ?thesis by (simp add: construction_simps)
  next
    case (Some v)
    then show ?thesis by (cases "0 \<le> v") (simp_all add: construction_simps)
  qed
qed

text \<open>
  C2, as amended. With \<open>dimension = 1\<close> and \<open>layers = [3, 0]\<close> the base case inserts the points
  \<open>3\<close>, \<open>2\<close> and \<open>1\<close>, each with payload \<open>0\<close>: every offset above the innermost radius, not
  only the layer radius. At the point \<open>0\<close> it reads \<^verbatim>\<open>layers[2]\<close>. Under the checked access
  the run stops there. Under the unchecked access it goes on: it inserts the centre, and
  \<^verbatim>\<open>symmetry\<close> mirrors the points, which gives exactly the seven points from \<open>-3\<close> to \<open>3\<close>;
  all but the centre have payload \<open>0\<close>, and the centre has payload \<open>1\<close> if the value found
  past the end is not negative and payload \<open>0\<close> otherwise.
\<close>

theorem hypersphere_1_3_0:
  "hypersphere past_end 1 [3, 0] =
     (case past_end [0] of
        None \<Rightarrow> Inl (OutOfRange, [([1], 0), ([2], 0), ([3], 0)])
      | Some v \<Rightarrow>
          Inr [([- 3], 0), ([- 2], 0), ([- 1], 0), ([0], if 0 \<le> v then 1 else 0),
               ([1], 0), ([2], 0), ([3], 0)])"
proof (cases "past_end [0]")
  case None
  then show ?thesis by (simp add: construction_simps)
next
  case (Some v)
  then show ?thesis by (cases "0 \<le> v") (simp_all add: construction_simps)
qed

subsection \<open>C3: first write wins\<close>

text \<open>
  C3 as stated fails on a set that holds \<open>p\<close> already: the payload stays the old one,
  not \<open>v1\<close>.
\<close>

theorem set_point_keeps_older_payload:
  "get_payload (set_point [0] (2::nat) (set_point [0] 1 [([0], 7)])) [0] \<noteq> Inr 1"
  by (simp add: get_payload_def set_point_def emplace_def)

text \<open>
  C3, as amended. Inserting \<open>(p, v1)\<close> and then \<open>(p, v2)\<close>: the second insertion changes
  neither the entries nor the size, and the payload recorded for \<open>p\<close> is the one of the
  first insertion that found \<open>p\<close> absent: \<open>v1\<close> if the set did not hold \<open>p\<close> before, the
  payload it already had otherwise.
\<close>

theorem set_point_first_write_wins:
  "get_payload (set_point p v2 (set_point p v1 m)) p
     = (case get m p of None \<Rightarrow> Inr v1 | Some x \<Rightarrow> Inr (snd x))
   \<and> set_point p v2 (set_point p v1 m) = set_point p v1 m
   \<and> size_points (set_point p v2 (set_point p v1 m)) = size_points (set_point p v1 m)"
proof -
  have present: "get (set_point p v1 m) p \<noteq> None"
    by (simp add: get_set_point)
  have same: "set_point p v2 (set_point p v1 m) = set_point p v1 m"
    using present by (rule set_point_present)
  have "get_payload (set_point p v1 m) p
          = (case get m p of None \<Rightarrow> Inr v1 | Some x \<Rightarrow> Inr (snd x))"
    by (simp add: get_payload_def get_set_point split: option.splits)
  with same show ?thesis by simp
qed

subsection \<open>C4: dimension 2, layers [5]\<close>

text \<open>
  C4 as stated fails: the point set for \<open>dimension = 2\<close>, \<open>layers = [5]\<close> holds \<open>(1, 5)\<close>,
  which is none of \<open>(5,0)\<close>, \<open>(4,3)\<close>, \<open>(3,4)\<close>, \<open>(0,5)\<close> or their reflections. (With one layer
  the loop of the base case is never entered, so nothing is read past the end.)
\<close>

theorem hypersphere_2_5_has_1_5:
  "\<forall>past_end. (case hypersphere past_end 2 [5] of Inl f \<Rightarrow> False | Inr m \<Rightarrow> contains [1, 5] m)"
proof
  fix past_end :: "point \<Rightarrow> int option"
  show "(case hypersphere past_end 2 [5] of Inl f \<Rightarrow> False | Inr m \<Rightarrow> contains [1, 5] m)"
    by code_simp
qed

text \<open>
  C4, as amended. The point set for \<open>dimension = 2\<close>, \<open>layers = [5]\<close> holds \<open>(5,0)\<close>, \<open>(4,3)\<close>,
  \<open>(3,4)\<close>, \<open>(0,5)\<close> and their reflections and also \<open>(1,5)\<close> and its reflections, each with
  payload \<open>0\<close>; it does not hold \<open>(4,4)\<close>; all its payloads are \<open>0\<close>; and every point of it
  that has no coordinate of absolute value \<open>2\<close> is at the squared distance \<open>25\<close> or \<open>26\<close> from
  the centre, so on the perimeter and not inside. Nothing is said of the points with a
  coordinate of absolute value \<open>2\<close>: what is stored there comes from \<^verbatim>\<open>chi <<= 2\<close>, which
  multiplies by four where the midpoint circle algorithm multiplies by two.
\<close>

theorem hypersphere_2_5_perimeter:
  "(case hypersphere past_end 2 [5] of
      Inl f \<Rightarrow> False
    | Inr m \<Rightarrow>
        list_all (\<lambda>p. get_payload m p = Inr 0)
          [[5, 0], [- 5, 0], [0, 5], [0, - 5],
           [4, 3], [4, - 3], [- 4, 3], [- 4, - 3], [3, 4], [3, - 4], [- 3, 4], [- 3, - 4],
           [1, 5], [1, - 5], [- 1, 5], [- 1, - 5], [5, 1], [5, - 1], [- 5, 1], [- 5, - 1]]
        \<and> \<not> contains [4, 4] m
        \<and> list_all (\<lambda>x. snd x = 0) m
        \<and> list_all (\<lambda>x. \<bar>fst x ! 0\<bar> = 2 \<or> \<bar>fst x ! 1\<bar> = 2
                         \<or> (fst x ! 0)\<^sup>2 + (fst x ! 1)\<^sup>2 = 25
                         \<or> (fst x ! 0)\<^sup>2 + (fst x ! 1)\<^sup>2 = 26) m)"
  by code_simp

subsection \<open>C5: closure under the symmetries\<close>

text \<open>
  C5 fails on the code. With \<open>dimension = 4\<close> and \<open>layers = [1]\<close> the first hyperoctant is the
  single point \<open>(0,0,0,1)\<close>. The diagonal passes swap the axes \<open>(0,1)\<close>, \<open>(1,2)\<close>, \<open>(2,3)\<close>,
  \<open>(3,0)\<close> once each, in this order, which brings the \<open>1\<close> to the axes 2 and 0 but never
  to axis 1: the point set holds \<open>(0,0,0,1)\<close> and not its permutation \<open>(0,1,0,0)\<close>.
\<close>

theorem hypersphere_4_1_not_symmetric:
  "hypersphere past_end 4 [1] = Inr
     [([- 1, 0, 0, 0], 0), ([0, 0, - 1, 0], 0), ([0, 0, 0, - 1], 0),
      ([0, 0, 0, 1], 0), ([0, 0, 1, 0], 0), ([1, 0, 0, 0], 0)]
   \<and> (case hypersphere past_end 4 [1] of
        Inl f \<Rightarrow> False
      | Inr m \<Rightarrow> get_payload m [0, 0, 0, 1] = Inr 0 \<and> \<not> contains [0, 1, 0, 0] m)"
  by code_simp

subsection \<open>C6: lookup\<close>

text \<open>
  C6. \<open>get_payload\<close> fails exactly when the point is not in the set, its only failure is
  \<open>NotFound\<close>, and otherwise it returns a payload stored with the point. For a constructed
  hypersphere, every entry \<open>(q, w)\<close> of the iteration is found: \<open>contains\<close> holds and
  \<open>get_payload\<close> returns \<open>w\<close>. (\<open>size_points\<close> and \<open>contains\<close> return plain values: they have
  no failure.)
\<close>

theorem get_payload_fails_iff_absent:
  "(get_payload m p = Inl NotFound \<longleftrightarrow> \<not> contains p m)
   \<and> (\<forall>e. get_payload m p = Inl e \<longrightarrow> e = NotFound)
   \<and> (contains p m \<longrightarrow> (\<exists>v. get_payload m p = Inr v \<and> (p, v) \<in> set m))
   \<and> (hypersphere past_end dimension layers = Inr h \<and> (q, w) \<in> set h
        \<longrightarrow> contains q h \<and> get_payload h q = Inr w)"
proof (intro conjI allI impI)
  show "get_payload m p = Inl NotFound \<longleftrightarrow> \<not> contains p m"
    by (simp add: get_payload_def contains_def split: option.splits)
next
  fix e assume "get_payload m p = Inl e"
  then show "e = NotFound" by (simp add: get_payload_def split: option.splits)
next
  assume "contains p m"
  then obtain x where x: "get m p = Some x" by (auto simp: contains_def)
  with get_Some_fst[OF x] show "\<exists>v. get_payload m p = Inr v \<and> (p, v) \<in> set m"
    by (cases x) (auto simp: get_payload_def)
next
  assume h: "hypersphere past_end dimension layers = Inr h \<and> (q, w) \<in> set h"
  then have "get h q = Some (q, w)"
    using get_distinct[OF hypersphere_distinct] by blast
  then show "contains q h" "get_payload h q = Inr w"
    by (simp_all add: contains_def get_payload_def)
qed

theorem get_payload_fails_iff_absent_witness:
  "contains [0] [([0], 7 :: nat)]
   \<and> (\<exists>v. get_payload [([0], 7 :: nat)] [0] = Inr v \<and> ([0], v) \<in> set [([0] :: point, 7)])
   \<and> get_payload [([0], 7 :: nat)] [1] = Inl NotFound
   \<and> hypersphere (\<lambda>p. Some 0) 1 [3, 0]
       = Inr [([- 3], 0), ([- 2], 0), ([- 1], 0), ([0], 1), ([1], 0), ([2], 0), ([3], 0)]
   \<and> ([0], 1) \<in> set [([- 3] :: point, 0 :: nat), ([- 2], 0), ([- 1], 0), ([0], 1), ([1], 0),
                      ([2], 0), ([3], 0)]
   \<and> contains [0] [([- 3], 0 :: nat), ([- 2], 0), ([- 1], 0), ([0], 1), ([1], 0), ([2], 0),
                   ([3], 0)]
   \<and> get_payload [([- 3], 0 :: nat), ([- 2], 0), ([- 1], 0), ([0], 1), ([1], 0), ([2], 0),
                   ([3], 0)] [0] = Inr 1"
proof -
  let ?h = "[([- 3], 0), ([- 2], 0), ([- 1], 0), ([0], 1), ([1], 0), ([2], 0), ([3], 0)] :: nat set_t"
  have c: "contains [0] [([0], 7 :: nat)]" by (simp add: contains_def)
  have n: "\<not> contains [1] [([0], 7 :: nat)]" by (simp add: contains_def)
  have h: "hypersphere (\<lambda>p. Some 0) 1 [3, 0] = Inr ?h" by code_simp
  have e: "([0], 1) \<in> set ?h" by simp
  note a = get_payload_fails_iff_absent[where m = "[([0], 7 :: nat)]" and p = "[0]"
      and past_end = "\<lambda>p. Some 0" and dimension = 1 and layers = "[3, 0]" and h = ?h
      and q = "[0]" and w = 1]
  note b = get_payload_fails_iff_absent[where m = "[([0], 7 :: nat)]" and p = "[1]"
      and past_end = "\<lambda>p. Some 0" and dimension = 1 and layers = "[3, 0]" and h = ?h
      and q = "[0]" and w = 1]
  note r = a[THEN conjunct2, THEN conjunct2, THEN conjunct2, rule_format, OF conjI[OF h e]]
  from a[THEN conjunct2, THEN conjunct2, THEN conjunct1, rule_format, OF c]
    b[THEN conjunct1, THEN iffD2, OF n]
    r[THEN conjunct1] r[THEN conjunct2] c h e
  show ?thesis by (intro conjI)
qed

subsection \<open>C7: layers and distance\<close>


subsection \<open>C8: preconditions\<close>

text \<open>
  C8 as stated fails: a list of layers that is not non-increasing is not refused. With
  \<open>dimension = 1\<close> and \<open>layers = [5, 2, 3]\<close> the construction completes.
\<close>

theorem hypersphere_accepts_non_monotonic_layers:
  "\<forall>past_end. hypersphere past_end 1 [5, 2, 3]
     = Inr [([- 5], 0), ([- 4], 0), ([- 3], 0), ([3], 0), ([4], 0), ([5], 0)]"
proof
  fix past_end :: "point \<Rightarrow> int option"
  show "hypersphere past_end 1 [5, 2, 3]
     = Inr [([- 5], 0), ([- 4], 0), ([- 3], 0), ([3], 0), ([4], 0), ([5], 0)]"
    by code_simp
qed

text \<open>
  C8, as amended. The constructor stops at an assertion, before any point is inserted, for
  \<open>dimension = 0\<close> and for an empty list of layers, and for no other input: the order of the
  layers is not checked.
\<close>

theorem hypersphere_assertions:
  "(dimension = 0 \<or> layers = []
      \<longrightarrow> hypersphere past_end dimension layers = Inl (AssertionFailed, []))
   \<and> (0 < dimension \<and> layers \<noteq> [] \<longrightarrow>
        (\<forall>m. hypersphere past_end dimension layers \<noteq> Inl (AssertionFailed, m)))"
proof (intro conjI impI allI)
  assume "dimension = 0 \<or> layers = []"
  then show "hypersphere past_end dimension layers = Inl (AssertionFailed, [])"
    by (auto simp: hypersphere_def octant_assert)
next
  fix m assume ok: "0 < dimension \<and> layers \<noteq> []"
  show "hypersphere past_end dimension layers \<noteq> Inl (AssertionFailed, m)"
  proof
    assume "hypersphere past_end dimension layers = Inl (AssertionFailed, m)"
    with ok consider
      "octant past_end (replicate dimension 0) layers 0 [] = Inl (AssertionFailed, m)"
      | m0 where "symmetry dimension m0 = Inl (AssertionFailed, m)"
      by (auto simp: hypersphere_def split: sum.splits)
    then show False
    proof cases
      case 1
      from octant_slices_error(1)[OF this] ok show False by simp
    next
      case 2
      from symmetry_error[OF this] show False by simp
    qed
  qed
qed

theorem hypersphere_assertions_witness:
  "hypersphere (\<lambda>p. None) 0 [3] = Inl (AssertionFailed, [])
   \<and> hypersphere (\<lambda>p. None) 2 [] = Inl (AssertionFailed, [])
   \<and> 0 < (1 :: nat) \<and> [5, 2, 3 :: int] \<noteq> []
   \<and> (\<forall>m. hypersphere (\<lambda>p. None) 1 [5, 2, 3] \<noteq> Inl (AssertionFailed, m))"
proof -
  have a: "(0 :: nat) = 0 \<or> [3 :: int] = []" by simp
  have b: "(2 :: nat) = 0 \<or> ([] :: int list) = []" by simp
  have c: "0 < (1 :: nat) \<and> [5, 2, 3 :: int] \<noteq> []" by simp
  from hypersphere_assertions[where dimension = 0 and layers = "[3]" and past_end = "\<lambda>p. None",
      THEN conjunct1, rule_format, OF a]
    hypersphere_assertions[where dimension = 2 and layers = "[]" and past_end = "\<lambda>p. None",
      THEN conjunct1, rule_format, OF b]
    hypersphere_assertions[where dimension = 1 and layers = "[5, 2, 3]"
      and past_end = "\<lambda>p. None", THEN conjunct2, rule_format, OF c]
    c
  show ?thesis by (intro conjI) blast+
qed

subsection \<open>C9: passes read a copy\<close>

text \<open>
  C9. On a point set whose points have \<open>dimension\<close> coordinates, as the one \<^verbatim>\<open>octant\<close>
  leaves, \<^verbatim>\<open>symmetry\<close> runs to its end and does what the specification describes, pass by
  pass: the copy that a pass iterates is the point set as the pass before left it (the
  given set, for the first pass), the calls of \<^verbatim>\<open>set\<close> that the pass makes are the
  reflections of the entries of that copy that meet the condition of the pass, one call for
  each such entry, in the order of the copy, and no other call; so a point inserted in a
  pass is not reflected in that pass. The point set that \<^verbatim>\<open>symmetry\<close> leaves is the one
  that these passes leave.
\<close>

theorem symmetry_passes_read_snapshot:
  assumes "\<forall>x \<in> set m. length (fst x) = dimension"
  shows "symmetry_traced dimension m = Inr (spec_symmetry dimension m)
         \<and> symmetry dimension m = Inr (snd (spec_symmetry dimension m))"
proof -
  let ?step = "\<lambda>s reflections. spec_pass reflections s"
  let ?s1 = "foldl ?step ([], m) (map (spec_diagonal_reflections dimension) [0..<dimension])"
  have m: "\<forall>x \<in> set (snd ([] :: (nat set_t \<times> calls) list, m)). length (fst x) = dimension"
    using assms by simp
  have ds: "\<forall>d \<in> set [0..<dimension]. d < dimension" by simp
  from diagonal_passes_spec[OF m ds]
  have diag: "for_each (diagonal_pass_traced dimension) [0..<dimension] ([], m) = Inr ?s1"
    "for_each (diagonal_pass dimension) [0..<dimension] m = Inr (snd ?s1)"
    "\<forall>x \<in> set (snd ?s1). length (fst x) = dimension"
    by simp_all
  from axial_passes_spec[OF diag(3) ds] diag(1,2) show ?thesis
    by (simp add: symmetry_traced_def symmetry_def spec_symmetry_def)
qed

theorem symmetry_passes_read_snapshot_witness:
  "list_all (\<lambda>x. length (fst x) = 2) ([([0, 5], 0), ([1, 5], 0)] :: nat set_t)
   \<and> symmetry_traced 2 [([0, 5], 0), ([1, 5], 0)]
       = Inr (spec_symmetry 2 [([0, 5], 0), ([1, 5], 0)])
   \<and> symmetry 2 [([0, 5], 0), ([1, 5], 0)] = Inr (snd (spec_symmetry 2 [([0, 5], 0), ([1, 5], 0)]))
   \<and> spec_symmetry 2 [([0, 5], 0), ([1, 5], 0)] =
       ([([([0, 5], 0), ([1, 5], 0)], [([5, 0], 0), ([5, 1], 0)]),
         ([([0, 5], 0), ([1, 5], 0), ([5, 0], 0), ([5, 1], 0)],
          [([5, 0], 0), ([5, 1], 0), ([0, 5], 0), ([1, 5], 0)]),
         ([([0, 5], 0), ([1, 5], 0), ([5, 0], 0), ([5, 1], 0)],
          [([- 1, 5], 0), ([- 5, 0], 0), ([- 5, 1], 0)]),
         ([([- 5, 0], 0), ([- 5, 1], 0), ([- 1, 5], 0), ([0, 5], 0),
           ([1, 5], 0), ([5, 0], 0), ([5, 1], 0)],
          [([- 5, - 1], 0), ([- 1, - 5], 0), ([0, - 5], 0), ([1, - 5], 0),
           ([5, - 1], 0)])],
        [([- 5, - 1], 0), ([- 5, 0], 0), ([- 5, 1], 0), ([- 1, - 5], 0),
         ([- 1, 5], 0), ([0, - 5], 0), ([0, 5], 0), ([1, - 5], 0),
         ([1, 5], 0), ([5, - 1], 0), ([5, 0], 0), ([5, 1], 0)])"
proof -
  have wf: "\<forall>x \<in> set ([([0, 5], 0), ([1, 5], 0)] :: nat set_t). length (fst x) = 2" by simp
  have run: "spec_symmetry 2 [([0, 5], 0), ([1, 5], 0)] =
       ([([([0, 5], 0), ([1, 5], 0)], [([5, 0], 0), ([5, 1], 0)]),
         ([([0, 5], 0), ([1, 5], 0), ([5, 0], 0), ([5, 1], 0)],
          [([5, 0], 0), ([5, 1], 0), ([0, 5], 0), ([1, 5], 0)]),
         ([([0, 5], 0), ([1, 5], 0), ([5, 0], 0), ([5, 1], 0)],
          [([- 1, 5], 0), ([- 5, 0], 0), ([- 5, 1], 0)]),
         ([([- 5, 0], 0), ([- 5, 1], 0), ([- 1, 5], 0), ([0, 5], 0),
           ([1, 5], 0), ([5, 0], 0), ([5, 1], 0)],
          [([- 5, - 1], 0), ([- 1, - 5], 0), ([0, - 5], 0), ([1, - 5], 0),
           ([5, - 1], 0)])],
        [([- 5, - 1], 0), ([- 5, 0], 0), ([- 5, 1], 0), ([- 1, - 5], 0),
         ([- 1, 5], 0), ([0, - 5], 0), ([0, 5], 0), ([1, - 5], 0),
         ([1, 5], 0), ([5, - 1], 0), ([5, 0], 0), ([5, 1], 0)])"
    by code_simp
  note snapshot = symmetry_passes_read_snapshot[OF wf]
  have "list_all (\<lambda>x. length (fst x) = 2) ([([0, 5], 0), ([1, 5], 0)] :: nat set_t)" by simp
  from this conjunct1[OF snapshot] conjunct2[OF snapshot] run show ?thesis by (intro conjI)
qed

subsection \<open>C10: termination\<close>

text \<open>
  C10. The recursion of \<^verbatim>\<open>octant\<close> and of its loops is well-founded on every input: each
  iteration of the slicing loop brings \<open>d_diff\<close> closer to the first radius or empties the
  radii, each recursive call has one axis less to slice. With a positive dimension and
  layers that are not empty, the construction ends with a point set, given that the reads
  past the end of the layers (C1) find some value and the run goes on, as the unchecked
  access of the code does.
\<close>

theorem hypersphere_terminates:
  assumes "0 < dimension" and "layers \<noteq> []" and "\<forall>p. past_end p \<noteq> None"
  shows "(\<exists>h. hypersphere past_end dimension layers = Inr h)
         \<and> octant_slices_dom (Inl (past_end, replicate dimension 0, layers, 0, []))
         \<and> layers_loop_dom (past_end, layers, d, point, radius, layer, m)
         \<and> layer_advance_dom (past_end point, layers, radius, layer)
         \<and> radii_loop_dom (d_diff, i, radii, criteria)"
  using hypersphere_unchecked[OF assms]
  by (simp add: octant_slices_total layers_loop_total layer_advance_total radii_loop_total)

theorem hypersphere_terminates_witness:
  "0 < (2 :: nat) \<and> [3, 0 :: int] \<noteq> [] \<and> (\<forall>p :: point. (\<lambda>p. Some (0 :: int)) p \<noteq> None)
   \<and> (\<exists>h. hypersphere (\<lambda>p. Some 0) 2 [3, 0] = Inr h)"
proof -
  have a: "0 < (2 :: nat)" by simp
  have b: "[3, 0 :: int] \<noteq> []" by simp
  have c: "\<forall>p :: point. (\<lambda>p. Some (0 :: int)) p \<noteq> None" by simp
  from hypersphere_terminates[OF a b c, THEN conjunct1] a b c show ?thesis by (intro conjI)
qed

end
